theory Spec2Isabelle
  imports Main
begin

section \<open>Save-file scanning and console classification (scanning.py)\<close>

text \<open>
  A shallow embedding of \<^verbatim>\<open>load_ignore_list\<close>, \<^verbatim>\<open>detect_console_type\<close>,
  \<^verbatim>\<open>scan_directory\<close> and \<^verbatim>\<open>ScannerThread.run\<close>. Python strings are lists of
  characters with code points below 256; paths are POSIX paths. Exceptions are values:
  a function that can raise returns \<open>error + 'a\<close>, with \<open>Inl\<close> for the exception.
\<close>

subsection \<open>Python strings\<close>

text \<open>\<^verbatim>\<open>str.lower\<close> on code points below 256: A-Z and the Latin-1 capitals
  (0xC0-0xDE without the multiplication sign 0xD7) move up by 32.\<close>

definition lower_char :: "char \<Rightarrow> char" where
  "lower_char c =
     (let n = (of_char c :: nat)
      in if (65 \<le> n \<and> n \<le> 90) \<or> (192 \<le> n \<and> n \<le> 222 \<and> n \<noteq> 215)
         then char_of (n + 32) else c)"

definition lower :: "string \<Rightarrow> string" where
  "lower s = map lower_char s"

text \<open>\<^verbatim>\<open>str.isspace\<close> on code points below 256, as \<^verbatim>\<open>str.strip()\<close> uses it.\<close>

definition is_space :: "char \<Rightarrow> bool" where
  "is_space c =
     (let n = (of_char c :: nat)
      in (9 \<le> n \<and> n \<le> 13) \<or> (28 \<le> n \<and> n \<le> 32) \<or> n = 133 \<or> n = 160)"

definition strip :: "string \<Rightarrow> string" where
  "strip s = rev (dropWhile is_space (rev (dropWhile is_space s)))"

text \<open>\<^verbatim>\<open>k in s\<close> on two strings: \<open>k\<close> occurs in \<open>s\<close> as a contiguous substring.\<close>

fun starts_with :: "string \<Rightarrow> string \<Rightarrow> bool" where
  "starts_with s [] = True"
| "starts_with [] (k # ks) = False"
| "starts_with (c # cs) (k # ks) = (c = k \<and> starts_with cs ks)"

fun str_contains :: "string \<Rightarrow> string \<Rightarrow> bool" where
  "str_contains k [] = (k = [])"
| "str_contains k (c # cs) = (starts_with (c # cs) k \<or> str_contains k cs)"

text \<open>\<^verbatim>\<open>s.split(sep)\<close> with a one-character separator: never empty, \<open>''''\<close> gives \<open>['''']\<close>.\<close>

primrec split_on :: "char \<Rightarrow> string \<Rightarrow> string list" where
  "split_on sep [] = [[]]"
| "split_on sep (c # cs) =
     (if c = sep then [] # split_on sep cs
      else (case split_on sep cs of
              [] \<Rightarrow> [[c]]
            | l # ls \<Rightarrow> (c # l) # ls))"

text \<open>\<^verbatim>\<open>sep.join(xs)\<close>.\<close>

fun join_with :: "string \<Rightarrow> string list \<Rightarrow> string" where
  "join_with sep [] = []"
| "join_with sep [x] = x"
| "join_with sep (x # y # ys) = x @ sep @ join_with sep (y # ys)"

text \<open>\<^verbatim>\<open>s.rfind(c)\<close>: the index of the last occurrence, or -1.\<close>

definition rfind :: "char \<Rightarrow> string \<Rightarrow> int" where
  "rfind c s =
     (if c \<in> set s
      then int (length s) - 1 - int (length (takeWhile (\<lambda>x. x \<noteq> c) (rev s)))
      else - 1)"

text \<open>Reading a file opened in text mode: \<^verbatim>\<open>\r\n\<close> and a lone \<^verbatim>\<open>\r\<close> arrive as
  \<^verbatim>\<open>\n\<close>.\<close>

fun universal_newlines :: "string \<Rightarrow> string" where
  "universal_newlines [] = []"
| "universal_newlines [c] = [if c = CHR 0x0D then CHR 0x0A else c]"
| "universal_newlines (c # d # cs) =
     (if c = CHR 0x0D then
        (if d = CHR 0x0A then CHR 0x0A # universal_newlines cs
         else CHR 0x0A # universal_newlines (d # cs))
      else c # universal_newlines (d # cs))"

text \<open>Iterating over such a file: the lines of the translated text, each keeping its
  newline.\<close>

definition file_lines :: "string \<Rightarrow> string list" where
  "file_lines s =
     foldr (\<lambda>c acc. if c = CHR 0x0A then [c] # acc
                     else (case acc of [] \<Rightarrow> [[c]] | l # ls \<Rightarrow> (c # l) # ls))
       (universal_newlines s) []"

text \<open>A path with an embedded NUL character: \<^verbatim>\<open>os.scandir\<close> and \<^verbatim>\<open>os.stat\<close> refuse it
  with ValueError before they look at the file system.\<close>

definition has_nul :: "string \<Rightarrow> bool" where
  "has_nul p = (CHR 0x00 \<in> set p)"

subsection \<open>pathlib and os.path on POSIX\<close>

text \<open>
  \<^verbatim>\<open>Path(p)\<close> parses \<open>p\<close> into a root (\<open>/\<close>, or \<open>//\<close> for exactly two leading
  slashes) and the components between slashes, dropping empty components and \<open>.\<close>;
  \<^verbatim>\<open>str(Path(p))\<close> joins them again and is \<open>.\<close> when nothing is left.
\<close>

definition is_slash :: "char \<Rightarrow> bool" where
  "is_slash c = (c = CHR ''/'')"

definition path_root :: "string \<Rightarrow> string" where
  "path_root p =
     (let n = length (takeWhile is_slash p)
      in if n = 0 then [] else if n = 2 then ''//'' else ''/'')"

definition path_parts :: "string \<Rightarrow> string list" where
  "path_parts p =
     filter (\<lambda>x. x \<noteq> [] \<and> x \<noteq> ''.'') (split_on CHR ''/'' (dropWhile is_slash p))"

definition path_str :: "string \<Rightarrow> string" where
  "path_str p =
     (let s = path_root p @ join_with ''/'' (path_parts p)
      in if s = [] then ''.'' else s)"

definition path_name :: "string \<Rightarrow> string" where
  "path_name p = (if path_parts p = [] then [] else last (path_parts p))"

text \<open>\<^verbatim>\<open>Path(p).suffix\<close> and \<^verbatim>\<open>Path(p).stem\<close>: split the name at its last dot,
  unless that dot is the first or the last character.\<close>

definition path_suffix :: "string \<Rightarrow> string" where
  "path_suffix p =
     (let name = path_name p; i = rfind CHR ''.'' name
      in if 0 < i \<and> i < int (length name) - 1 then drop (nat i) name else [])"

definition path_stem :: "string \<Rightarrow> string" where
  "path_stem p =
     (let name = path_name p; i = rfind CHR ''.'' name
      in if 0 < i \<and> i < int (length name) - 1 then take (nat i) name else name)"

text \<open>\<^verbatim>\<open>os.path.join(a, b)\<close>.\<close>

definition path_join :: "string \<Rightarrow> string \<Rightarrow> string" where
  "path_join a b =
     (if starts_with b ''/'' then b
      else if a = [] \<or> last a = CHR ''/'' then a @ b
      else a @ ''/'' @ b)"

subsection \<open>JSON values, files, exceptions\<close>

text \<open>What \<^verbatim>\<open>json.load\<close> returns. An object keeps its members in document order;
  as in Python, the last member with a given key is the one a lookup finds. Numbers are
  integers here.\<close>

datatype json =
    JNull
  | JBool bool
  | JNum int
  | JStr string
  | JArr "json list"
  | JObj "(string \<times> json) list"

datatype error =
    OSError | ValueError | OverflowError | AttributeError | TypeError | StopIteration

text \<open>A configuration file on disk: absent, present but failing to open or decode, or
  its decoded text, before the translation of newlines.\<close>

datatype conf_file = Missing | Unreadable | Text string

text \<open>\<^verbatim>\<open>d.get(k, default)\<close> on a dict.\<close>

definition dict_get :: "(string \<times> json) list \<Rightarrow> string \<Rightarrow> json \<Rightarrow> json" where
  "dict_get kv k dflt = (case map_of (rev kv) k of None \<Rightarrow> dflt | Some v \<Rightarrow> v)"

text \<open>Python truthiness, as \<^verbatim>\<open>x or y\<close> tests it.\<close>

fun truthy :: "json \<Rightarrow> bool" where
  "truthy JNull = False"
| "truthy (JBool b) = b"
| "truthy (JNum n) = (n \<noteq> 0)"
| "truthy (JStr s) = (s \<noteq> [])"
| "truthy (JArr xs) = (xs \<noteq> [])"
| "truthy (JObj kv) = (kv \<noteq> [])"

text \<open>\<^verbatim>\<open>name in x\<close> for a string \<open>name\<close>: membership in a list, substring of a
  string, key of a dict; TypeError on anything else.\<close>

fun py_in :: "string \<Rightarrow> json \<Rightarrow> error + bool" where
  "py_in name (JArr xs) = Inr (JStr name \<in> set xs)"
| "py_in name (JStr s) = Inr (str_contains name s)"
| "py_in name (JObj kv) = Inr (name \<in> fst ` set kv)"
| "py_in name JNull = Inl TypeError"
| "py_in name (JBool b) = Inl TypeError"
| "py_in name (JNum n) = Inl TypeError"

text \<open>The environment of a scan: the two configuration files beside the program, the
  JSON parser (\<open>None\<close> when it raises) and the local-time formatting of a modification
  time, \<^verbatim>\<open>datetime.fromtimestamp(t).strftime('%Y-%m-%d %H:%M:%S')\<close>, with the exception
  that \<^verbatim>\<open>fromtimestamp\<close> raises when the timestamp is out of range (OverflowError,
  OSError or ValueError, as the platform has it). A modification time is a number of
  whole seconds.\<close>

record env =
  ignore_json :: conf_file
  config_json :: conf_file
  json_loads :: "string \<Rightarrow> json option"
  format_time :: "int \<Rightarrow> error + string"

subsection \<open>load_ignore_list\<close>

definition is_comment_line :: "string \<Rightarrow> bool" where
  "is_comment_line line = starts_with (strip line) ''#''"

text \<open>Line 25: the lines that do not start with \<open>#\<close>, joined by newlines.\<close>

definition strip_comments :: "string \<Rightarrow> string" where
  "strip_comments t =
     join_with [CHR 0x0A] (filter (\<lambda>line. \<not> is_comment_line line) (file_lines t))"

definition load_ignore_list :: "env \<Rightarrow> json \<times> json" where
  "load_ignore_list E =
     (case ignore_json E of
        Missing \<Rightarrow> (JArr [], JArr [])
      | Unreadable \<Rightarrow> (JArr [], JArr [])
      | Text t \<Rightarrow>
          (case json_loads E (strip_comments t) of
             None \<Rightarrow> (JArr [], JArr [])
           | Some (JObj kv) \<Rightarrow>
               (dict_get kv ''ignore_directories'' (JArr []),
                dict_get kv ''ignore_files'' (JArr []))
           | Some _ \<Rightarrow> (JArr [], JArr [])))"

subsection \<open>detect_console_type\<close>

type_synonym triple = "string \<times> string \<times> string"

datatype console_info = Direct triple | Sub "(string \<times> triple) list"

definition console_patterns :: "(string \<times> console_info) list" where
  "console_patterns =
     [(''.sav'', Sub [(''gb'', (''Game Boy'', ''mGBA/VBA'', ''Original'')),
                     (''gbc'', (''GBC'', ''mGBA/VBA'', ''Color'')),
                     (''gba'', (''GBA'', ''mGBA/VBA'', ''Advance'')),
                     (''nes'', (''NES'', ''FCEUX'', ''Original'')),
                     (''snes'', (''SNES'', ''SNES9x'', ''Original''))]),
      (''.srm'', Sub [(''snes'', (''SNES'', ''SNES9x'', ''Original'')),
                     (''gba'', (''GBA'', ''mGBA'', ''Advance'')),
                     (''genesis'', (''Sega Genesis'', ''Fusion'', ''Original''))]),
      (''.mcr'', Direct (''PS1'', ''ePSXe'', ''Original'')),
      (''.mc'', Direct (''PS2'', ''PCSX2'', ''Original'')),
      (''.mem'', Direct (''N64'', ''Project64'', ''Original'')),
      (''.gci'', Direct (''GameCube'', ''Dolphin'', ''Original'')),
      (''.sram'', Direct (''SNES'', ''ZSNES'', ''Original'')),
      (''.dsv'', Direct (''DS'', ''DeSmuME'', ''Original'')),
      (''.duc'', Direct (''DS'', ''DraStic'', ''Original'')),
      (''.nps'', Direct (''PSP'', ''PPSSPP'', ''Original'')),
      (''.vms'', Direct (''Dreamcast'', ''NullDC'', ''Original'')),
      (''.sav2'', Direct (''3DS'', ''Citra'', ''Original'')),
      (''.dat'', Direct (''PS3'', ''RPCS3'', ''Original'')),
      (''.bin'', Direct (''PS Vita'', ''Vita3K'', ''Original'')),
      (''.nv'', Direct (''Switch'', ''Yuzu'', ''Original''))]"

text \<open>Lines 72-78: the configured emulator paths. Every exception while opening,
  parsing or reading the member (a parsed value that is no dict has no \<^verbatim>\<open>get\<close>) is
  caught and gives the empty dict; a member of any JSON type is taken as it is.\<close>

definition load_emulator_paths :: "env \<Rightarrow> json" where
  "load_emulator_paths E =
     (case config_json E of
        Missing \<Rightarrow> JObj []
      | Unreadable \<Rightarrow> JObj []
      | Text t \<Rightarrow>
          (case json_loads E (universal_newlines t) of
             None \<Rightarrow> JObj []
           | Some (JObj kv) \<Rightarrow> dict_get kv ''emulator_paths'' (JObj [])
           | Some _ \<Rightarrow> JObj []))"

text \<open>The three lines that follow each selected triple (89-91, 94-96, 98-100):
  \<^verbatim>\<open>emulator_name = value[1].split('/')[0]\<close>,
  \<^verbatim>\<open>emulator_path = emulator_paths.get(emulator_name, '')\<close>,
  \<^verbatim>\<open>return (value[0], emulator_path or value[1], value[2])\<close>.
  The \<^verbatim>\<open>get\<close> is outside the try block: on a value that is no dict it raises.\<close>

definition use_emulator_path :: "json \<Rightarrow> triple \<Rightarrow> error + (string \<times> json \<times> string)" where
  "use_emulator_path emulator_paths value =
     (case value of (console, label, hardware) \<Rightarrow>
        (let emulator_name = hd (split_on CHR ''/'' label)
         in case emulator_paths of
              JObj kv \<Rightarrow>
                (let emulator_path = dict_get kv emulator_name (JStr [])
                 in Inr (console,
                         if truthy emulator_path then emulator_path else JStr label,
                         hardware))
            | _ \<Rightarrow> Inl AttributeError))"

text \<open>Lines 86-91: the first key of the sub-mapping that occurs in the path.\<close>

fun first_key_in :: "string \<Rightarrow> (string \<times> triple) list \<Rightarrow> triple option" where
  "first_key_in path_s [] = None"
| "first_key_in path_s ((key, value) # rest) =
     (if str_contains key path_s then Some value else first_key_in path_s rest)"

text \<open>Lines 81-103: the loop over the table, and the fallback after it.\<close>

fun match_patterns ::
  "json \<Rightarrow> string \<Rightarrow> string \<Rightarrow> (string \<times> console_info) list
     \<Rightarrow> error + (string \<times> json \<times> string)" where
  "match_patterns emulator_paths extension path_s [] =
     Inr (''PC'', JStr ''Unknown'', ''Unknown'')"
| "match_patterns emulator_paths extension path_s ((ext, info) # rest) =
     (if extension = ext then
        (case info of
           Sub m \<Rightarrow>
             (case first_key_in path_s m of
                Some value \<Rightarrow> use_emulator_path emulator_paths value
              | None \<Rightarrow>
                  (case m of
                     [] \<Rightarrow> Inl StopIteration
                   | (key, first_value) # _ \<Rightarrow> use_emulator_path emulator_paths first_value))
         | Direct value \<Rightarrow> use_emulator_path emulator_paths value)
      else match_patterns emulator_paths extension path_s rest)"

definition detect_console_type :: "env \<Rightarrow> string \<Rightarrow> error + (string \<times> json \<times> string)" where
  "detect_console_type E file_path =
     (let file_path = lower file_path;
          extension = path_suffix file_path;
          emulator_paths = load_emulator_paths E;
          path_s = lower (path_str file_path)
      in match_patterns emulator_paths extension path_s console_patterns)"

subsection \<open>The file system that os.walk sees\<close>

text \<open>
  A directory lists its entries in the order \<^verbatim>\<open>os.scandir\<close> returns them. A file
  carries its modification time in seconds, \<open>None\<close> when \<^verbatim>\<open>os.path.getmtime\<close> raises
  (the file was removed after it was listed, or may not be read). \<open>NoAccess\<close> is a
  directory that cannot be listed. There are no symbolic links, and a directory of a
  real file system holds no two entries of the same name.
\<close>

datatype node = File "int option" | Dir "(string \<times> node) list" | NoAccess

fun is_dir :: "node \<Rightarrow> bool" where
  "is_dir (File m) = False"
| "is_dir (Dir es) = True"
| "is_dir NoAccess = True"

fun dir_names :: "(string \<times> node) list \<Rightarrow> string list" where
  "dir_names [] = []"
| "dir_names ((n, t) # es) = (if is_dir t then n # dir_names es else dir_names es)"

fun file_entries :: "(string \<times> node) list \<Rightarrow> (string \<times> int option) list" where
  "file_entries [] = []"
| "file_entries ((n, File m) # es) = (n, m) # file_entries es"
| "file_entries ((n, t) # es) = file_entries es"

subsection \<open>scan_directory\<close>

record save_info =
  console_type :: string
  game_name :: string
  save_path :: string
  date_modified :: string
  emulator :: json
  hardware_type :: string

definition save_extensions :: "string list" where
  "save_extensions =
     [''.sav'', ''.srm'', ''.mcr'', ''.mc'', ''.mem'', ''.gci'', ''.sram'', ''.dsv'',
      ''.duc'', ''.nps'', ''.vms'', ''.sav2'', ''.dat'', ''.bin'', ''.nv'']"

text \<open>Line 136, \<^verbatim>\<open>re.sub(r'[\[(].*?[\])]', '', game_name)\<close>: at an opening bracket or
  parenthesis the lazy \<^verbatim>\<open>.*?\<close> runs to the nearest closing bracket or parenthesis, of
  either kind, and cannot cross a newline; the whole match is deleted and the search goes
  on behind it. An opener with no such closer stays.\<close>

definition is_opener :: "char \<Rightarrow> bool" where
  "is_opener c = (c = CHR ''['' \<or> c = CHR ''('')"

definition is_closer :: "char \<Rightarrow> bool" where
  "is_closer c = (c = CHR '']'' \<or> c = CHR '')'')"

fun find_close :: "string \<Rightarrow> string option" where
  "find_close [] = None"
| "find_close (d # ds) =
     (if is_closer d then Some ds
      else if d = CHR 0x0A then None
      else find_close ds)"

function sub_brackets :: "string \<Rightarrow> string" where
  "sub_brackets [] = []"
| "sub_brackets (c # cs) =
     (if is_opener c then
        (case find_close cs of
           Some rest \<Rightarrow> sub_brackets rest
         | None \<Rightarrow> c # sub_brackets cs)
      else c # sub_brackets cs)"
  by pat_completeness auto
termination
proof -
  have shorter: "length rest < Suc (length cs)" if "find_close cs = Some rest" for cs rest
    using that by (induction cs) (auto split: if_splits)
  show ?thesis
    by (relation "measure length") (auto dest: shorter)
qed

text \<open>Line 137, \<^verbatim>\<open>re.sub(r'[._-]', ' ', game_name)\<close>: every single character of the
  class is replaced by a space.\<close>

definition is_separator :: "char \<Rightarrow> bool" where
  "is_separator c = (c = CHR ''.'' \<or> c = CHR ''_'' \<or> c = CHR ''-'')"

definition sub_separators :: "string \<Rightarrow> string" where
  "sub_separators s = concat (map (\<lambda>c. if is_separator c then '' '' else [c]) s)"

text \<open>Lines 134-137.\<close>

definition derive_game_name :: "string \<Rightarrow> string" where
  "derive_game_name file = strip (sub_separators (sub_brackets (path_stem file)))"

text \<open>Line 120, \<^verbatim>\<open>[d for d in dirs if d not in ignore_dirs]\<close>.\<close>

fun keep_dirs :: "json \<Rightarrow> string list \<Rightarrow> error + string list" where
  "keep_dirs ignore_dirs [] = Inr []"
| "keep_dirs ignore_dirs (d # ds) =
     (case py_in d ignore_dirs of
        Inl e \<Rightarrow> Inl e
      | Inr b \<Rightarrow>
          (case keep_dirs ignore_dirs ds of
             Inl e \<Rightarrow> Inl e
           | Inr kept \<Rightarrow> Inr (if b then kept else d # kept)))"

text \<open>Lines 123-151, the body of the loop over the files of one directory: the record
  of a matching file, nothing for a file that is skipped.\<close>

definition scan_file ::
  "env \<Rightarrow> json \<Rightarrow> string \<Rightarrow> string \<Rightarrow> int option \<Rightarrow> error + save_info option" where
  "scan_file E ignore_files root file mtime =
     (case py_in file ignore_files of
        Inl e \<Rightarrow> Inl e
      | Inr True \<Rightarrow> Inr None
      | Inr False \<Rightarrow>
          if lower (path_suffix file) \<in> set save_extensions then
            (let file_path = path_join root file
             in if has_nul file_path then Inl ValueError
                else case mtime of
                  None \<Rightarrow> Inl OSError
                | Some t \<Rightarrow>
                    (case format_time E t of
                       Inl e \<Rightarrow> Inl e
                     | Inr date \<Rightarrow>
                         (case detect_console_type E file_path of
                            Inl e \<Rightarrow> Inl e
                          | Inr (console, emu, hardware) \<Rightarrow>
                              Inr (Some \<lparr>console_type = console,
                                         game_name = derive_game_name file,
                                         save_path = file_path,
                                         date_modified = date,
                                         emulator = emu,
                                         hardware_type = hardware\<rparr>))))
          else Inr None)"

fun scan_files ::
  "env \<Rightarrow> json \<Rightarrow> string \<Rightarrow> (string \<times> int option) list \<Rightarrow> error + save_info list" where
  "scan_files E ignore_files root [] = Inr []"
| "scan_files E ignore_files root ((file, mtime) # rest) =
     (case scan_file E ignore_files root file mtime of
        Inl e \<Rightarrow> Inl e
      | Inr r \<Rightarrow>
          (case scan_files E ignore_files root rest of
             Inl e \<Rightarrow> Inl e
           | Inr rs \<Rightarrow> Inr ((case r of None \<Rightarrow> [] | Some x \<Rightarrow> [x]) @ rs)))"

text \<open>Line 118, \<^verbatim>\<open>os.walk(directory)\<close>, top down, with the loop body at each directory
  it yields. A top that cannot be listed (missing, unreadable, or a file) yields
  nothing: \<^verbatim>\<open>os.walk\<close> catches the OSError of \<^verbatim>\<open>scandir\<close> and, with no \<^verbatim>\<open>onerror\<close>
  given, drops it. The ValueError for a NUL in the path is not an OSError and goes
  through. After the body has pruned \<^verbatim>\<open>dirs\<close>, the walk descends into the
  subdirectories still named there, in order.\<close>

fun walk :: "env \<Rightarrow> json \<Rightarrow> json \<Rightarrow> string \<Rightarrow> node \<Rightarrow> error + save_info list"
  and walk_dirs ::
    "env \<Rightarrow> json \<Rightarrow> json \<Rightarrow> string \<Rightarrow> string list \<Rightarrow> (string \<times> node) list
       \<Rightarrow> error + save_info list" where
  "walk E ignore_dirs ignore_files root (File m) =
     (if has_nul root then Inl ValueError else Inr [])"
| "walk E ignore_dirs ignore_files root NoAccess =
     (if has_nul root then Inl ValueError else Inr [])"
| "walk E ignore_dirs ignore_files root (Dir es) =
     (if has_nul root then Inl ValueError else
      case keep_dirs ignore_dirs (dir_names es) of
        Inl e \<Rightarrow> Inl e
      | Inr dirs \<Rightarrow>
          (case scan_files E ignore_files root (file_entries es) of
             Inl e \<Rightarrow> Inl e
           | Inr recs \<Rightarrow>
               (case walk_dirs E ignore_dirs ignore_files root dirs es of
                  Inl e \<Rightarrow> Inl e
                | Inr sub \<Rightarrow> Inr (recs @ sub))))"
| "walk_dirs E ignore_dirs ignore_files root dirs [] = Inr []"
| "walk_dirs E ignore_dirs ignore_files root dirs ((n, t) # es) =
     (if is_dir t \<and> n \<in> set dirs then
        (case walk E ignore_dirs ignore_files (path_join root n) t of
           Inl e \<Rightarrow> Inl e
         | Inr recs \<Rightarrow>
             (case walk_dirs E ignore_dirs ignore_files root dirs es of
                Inl e \<Rightarrow> Inl e
              | Inr sub \<Rightarrow> Inr (recs @ sub)))
      else walk_dirs E ignore_dirs ignore_files root dirs es)"

text \<open>Lines 105-153. The tree is what lies at \<open>directory\<close>: \<open>None\<close> when nothing
  exists there.\<close>

definition scan_directory :: "env \<Rightarrow> string \<Rightarrow> node option \<Rightarrow> error + save_info list" where
  "scan_directory E directory tree =
     (case load_ignore_list E of
        (ignore_dirs, ignore_files) \<Rightarrow>
          (case tree of
             None \<Rightarrow> if has_nul directory then Inl ValueError else Inr []
           | Some t \<Rightarrow> walk E ignore_dirs ignore_files directory t))"

subsection \<open>ScannerThread.run\<close>

fun str_nat :: "nat \<Rightarrow> string" where
  "str_nat n =
     (if n < 10 then [char_of (48 + n)]
      else str_nat (n div 10) @ [char_of (48 + n mod 10)])"

datatype signal =
    progress_signal string
  | finished_signal "save_info list"
  | error_signal error

text \<open>Lines 164-171: the signals the thread emits, in order.\<close>

definition run :: "env \<Rightarrow> string \<Rightarrow> node option \<Rightarrow> signal list" where
  "run E directory tree =
     progress_signal ''Starting scan...'' #
     (case scan_directory E directory tree of
        Inr results \<Rightarrow>
          [progress_signal (''Found '' @ str_nat (length results) @ '' save files''),
           finished_signal results]
      | Inl e \<Rightarrow> [error_signal e])"

section \<open>The specification's wording, and notions for the statements\<close>

subsection \<open>Name cleanup and emulator resolution as the specification words them\<close>




text \<open>The specification's resolution of an emulator label against a configuration that
  maps emulator names to paths: the first name of the label is looked up, and a
  non-empty configured path replaces the whole label.\<close>

definition spec_emulator :: "(string \<rightharpoonup> string) \<Rightarrow> string \<Rightarrow> string" where
  "spec_emulator cfg label =
     (case cfg (takeWhile (\<lambda>c. c \<noteq> CHR ''/'') label) of
        Some p \<Rightarrow> if p \<noteq> [] then p else label
      | None \<Rightarrow> label)"

text \<open>A parsed \<^verbatim>\<open>emulator_paths\<close> object as that configuration, when all its values are
  strings.\<close>

fun is_JStr :: "json \<Rightarrow> bool" where
  "is_JStr (JStr s) = True"
| "is_JStr v = False"

definition string_valued :: "(string \<times> json) list \<Rightarrow> bool" where
  "string_valued kv = list_all (\<lambda>e. is_JStr (snd e)) kv"

definition configured :: "(string \<times> json) list \<Rightarrow> (string \<rightharpoonup> string)" where
  "configured kv name =
     (case map_of (rev kv) name of
        Some (JStr p) \<Rightarrow> Some p
      | _ \<Rightarrow> None)"

subsection \<open>Configurations and trees\<close>


text \<open>An ignore configuration that cannot be used: the file is missing, cannot be read,
  does not parse, or parses to something that is no object.\<close>

definition ignore_unusable :: "env \<Rightarrow> bool" where
  "ignore_unusable E =
     (case ignore_json E of
        Missing \<Rightarrow> True
      | Unreadable \<Rightarrow> True
      | Text t \<Rightarrow>
          (case json_loads E (strip_comments t) of
             None \<Rightarrow> True
           | Some (JObj kv) \<Rightarrow> False
           | Some _ \<Rightarrow> True))"

text \<open>The same tree with every directory that cannot be listed replaced by an empty
  directory.\<close>

fun listable :: "node \<Rightarrow> node"
  and listable_entries :: "(string \<times> node) list \<Rightarrow> (string \<times> node) list" where
  "listable (File m) = File m"
| "listable (Dir es) = Dir (listable_entries es)"
| "listable NoAccess = Dir []"
| "listable_entries [] = []"
| "listable_entries ((n, t) # es) = (n, listable t) # listable_entries es"

text \<open>A name that a directory entry can have.\<close>

definition valid_name :: "string \<Rightarrow> bool" where
  "valid_name n = (n \<noteq> [] \<and> CHR ''/'' \<notin> set n)"

fun wf_node :: "node \<Rightarrow> bool"
  and wf_entries :: "(string \<times> node) list \<Rightarrow> bool" where
  "wf_node (File m) = True"
| "wf_node (Dir es) = wf_entries es"
| "wf_node NoAccess = True"
| "wf_entries [] = True"
| "wf_entries ((n, t) # es) = (valid_name n \<and> wf_node t \<and> wf_entries es)"

text \<open>A tree in which the walk meets a matching file whose modification time cannot be
  read: the file is not ignored, has a save extension, and every directory on the way
  down to it is kept by the pruning.\<close>

definition unreadable_match :: "json \<Rightarrow> string \<times> int option \<Rightarrow> bool" where
  "unreadable_match ifiles e =
     (snd e = None \<and> py_in (fst e) ifiles = Inr False
      \<and> lower (path_suffix (fst e)) \<in> set save_extensions)"

fun meets_unreadable :: "json \<Rightarrow> json \<Rightarrow> node \<Rightarrow> bool"
  and meets_unreadable_below :: "json \<Rightarrow> json \<Rightarrow> (string \<times> node) list \<Rightarrow> bool" where
  "meets_unreadable idirs ifiles (File m) = False"
| "meets_unreadable idirs ifiles NoAccess = False"
| "meets_unreadable idirs ifiles (Dir es) =
     (list_ex (unreadable_match ifiles) (file_entries es)
      \<or> meets_unreadable_below idirs ifiles es)"
| "meets_unreadable_below idirs ifiles [] = False"
| "meets_unreadable_below idirs ifiles ((n, t) # es) =
     ((is_dir t \<and> py_in n idirs = Inr False \<and> meets_unreadable idirs ifiles t)
      \<or> meets_unreadable_below idirs ifiles es)"

subsection \<open>Paths below a root\<close>

text \<open>The components of a path below a root, and whether one of its directories below
  the root has a given name.\<close>

definition dir_prefix :: "string \<Rightarrow> string" where
  "dir_prefix root = (if root = [] \<or> last root = CHR ''/'' then root else root @ ''/'')"

definition rel_components :: "string \<Rightarrow> string \<Rightarrow> string list option" where
  "rel_components root p =
     (if starts_with p (dir_prefix root)
      then Some (split_on CHR ''/'' (drop (length (dir_prefix root)) p))
      else None)"

definition lies_under :: "string \<Rightarrow> string \<Rightarrow> string \<Rightarrow> bool" where
  "lies_under root d p =
     (case rel_components root p of
        None \<Rightarrow> False
      | Some cs \<Rightarrow> d \<in> set (butlast cs))"

text \<open>A path that the walk from \<open>root\<close> can give to a file: the root joined with the
  names of subdirectories that are not ignored, then with the file's name.\<close>

definition reached :: "json \<Rightarrow> string \<Rightarrow> string \<Rightarrow> bool" where
  "reached idirs root p =
     (\<exists>route f. p = foldl path_join root (route @ [f]) \<and> valid_name f
        \<and> (\<forall>n\<in>set route. valid_name n \<and> py_in n idirs = Inr False))"

text \<open>The specification's choice of the triple within one entry of the table: the triple
  itself, or, in a sub-mapping, the triple of the first key that occurs in the
  lower-cased path, and the first-defined triple when no key occurs.\<close>

fun spec_select :: "string \<Rightarrow> console_info \<Rightarrow> triple option" where
  "spec_select path_s (Direct value) = Some value"
| "spec_select path_s (Sub m) =
     (case filter (\<lambda>e. str_contains (fst e) path_s) m of
        e # _ \<Rightarrow> Some (snd e)
      | [] \<Rightarrow> (case m of e # _ \<Rightarrow> Some (snd e) | [] \<Rightarrow> None))"

text \<open>The same tree with every ignored subdirectory emptied.\<close>

fun without_ignored :: "json \<Rightarrow> node \<Rightarrow> node"
  and without_ignored_entries :: "json \<Rightarrow> (string \<times> node) list \<Rightarrow> (string \<times> node) list" where
  "without_ignored idirs (File m) = File m"
| "without_ignored idirs (Dir es) = Dir (without_ignored_entries idirs es)"
| "without_ignored idirs NoAccess = NoAccess"
| "without_ignored_entries idirs [] = []"
| "without_ignored_entries idirs ((n, t) # es) =
     (n, if is_dir t \<and> py_in n idirs = Inr True then Dir [] else without_ignored idirs t)
     # without_ignored_entries idirs es"

subsection \<open>Example environments and trees\<close>

text \<open>No \<^verbatim>\<open>ignore.json\<close> and no \<^verbatim>\<open>config.json\<close> beside the program.\<close>

definition plain_env :: env where
  "plain_env =
     \<lparr>ignore_json = Missing, config_json = Missing,
      json_loads = (\<lambda>s. None),
      format_time = (\<lambda>t. Inr ''2024-01-01 00:00:00'')\<rparr>"

text \<open>A \<^verbatim>\<open>config.json\<close> that is valid JSON, with \<^verbatim>\<open>emulator_paths\<close> set to null.\<close>

definition null_paths_env :: env where
  \<open>null_paths_env =
     \<lparr>ignore_json = Missing,
      config_json = Text ''{"emulator_paths": null}'',
      json_loads = (\<lambda>s. if s = ''{"emulator_paths": null}''
                          then Some (JObj [(''emulator_paths'', JNull)]) else None),
      format_time = (\<lambda>t. Inr ''2024-01-01 00:00:00'')\<rparr>\<close>

text \<open>A \<^verbatim>\<open>config.json\<close> that maps mGBA to a path and leaves FCEUX unset.\<close>

definition mgba_env :: env where
  \<open>mgba_env =
     \<lparr>ignore_json = Missing,
      config_json = Text ''{"emulator_paths": {"mGBA": "/opt/mgba", "FCEUX": ""}}'',
      json_loads = (\<lambda>s. if s = ''{"emulator_paths": {"mGBA": "/opt/mgba", "FCEUX": ""}}''
                          then Some (JObj [(''emulator_paths'',
                                            JObj [(''mGBA'', JStr ''/opt/mgba''),
                                                  (''FCEUX'', JStr [])])])
                          else None),
      format_time = (\<lambda>t. Inr ''2024-01-01 00:00:00'')\<rparr>\<close>

text \<open>An \<^verbatim>\<open>ignore.json\<close> that is cut off in the middle, so that it does not parse.\<close>

definition broken_ignore_env :: env where
  \<open>broken_ignore_env =
     \<lparr>ignore_json = Text ''{"ignore_directories": ["cache"'',
      config_json = Missing,
      json_loads = (\<lambda>s. if s = ''{"ignore_directories": [], "ignore_files": []}''
                          then Some (JObj [(''ignore_directories'', JArr []),
                                           (''ignore_files'', JArr [])])
                          else None),
      format_time = (\<lambda>t. Inr ''2024-01-01 00:00:00'')\<rparr>\<close>

text \<open>An \<^verbatim>\<open>ignore.json\<close> with a comment line, ignoring the directory \<open>cache\<close> and the
  file \<open>foo.sav\<close>.\<close>

definition cache_ignore_env :: env where
  \<open>cache_ignore_env =
     \<lparr>ignore_json =
        Text ''# names to skip\<newline>{"ignore_directories": ["cache"], "ignore_files": ["foo.sav"]}'',
      config_json = Missing,
      json_loads = (\<lambda>s. if s = ''{"ignore_directories": ["cache"], "ignore_files": ["foo.sav"]}''
                          then Some (JObj [(''ignore_directories'', JArr [JStr ''cache'']),
                                           (''ignore_files'', JArr [JStr ''foo.sav''])])
                          else None),
      format_time = (\<lambda>t. Inr ''2024-01-01 00:00:00'')\<rparr>\<close>

text \<open>A directory with two save files, the second of which vanished after the listing.\<close>

definition vanished_tree :: node where
  "vanished_tree = Dir [(''a.sav'', File (Some 0)), (''b.sav'', File None)]"

text \<open>The same with the vanished file one level down, beside a directory that cannot be
  listed.\<close>

definition nested_vanished_tree :: node where
  "nested_vanished_tree =
     Dir [(''a.sav'', File (Some 0)),
          (''locked'', NoAccess),
          (''snes'', Dir [(''b.srm'', File None)])]"

text \<open>A directory with an ignored subdirectory, and with names that differ from the
  ignored ones in case only.\<close>

definition cache_tree :: node where
  "cache_tree =
     Dir [(''cache'', Dir [(''x.sav'', File (Some 0))]),
          (''FOO.SAV'', File (Some 0)),
          (''foo.sav'', File (Some 0)),
          (''Cache'', Dir [(''zelda.srm'', File (Some 0))])]"

text \<open>The two records of the scan of that directory as \<^verbatim>\<open>/r/cache\<close>.\<close>

definition foo_record :: save_info where
  "foo_record =
     \<lparr>console_type = ''Game Boy'', game_name = ''FOO'', save_path = ''/r/cache/FOO.SAV'',
      date_modified = ''2024-01-01 00:00:00'', emulator = JStr ''mGBA/VBA'',
      hardware_type = ''Original''\<rparr>"

definition zelda_record :: save_info where
  "zelda_record =
     \<lparr>console_type = ''SNES'', game_name = ''zelda'',
      save_path = ''/r/cache/Cache/zelda.srm'',
      date_modified = ''2024-01-01 00:00:00'', emulator = JStr ''SNES9x'',
      hardware_type = ''Original''\<rparr>"

text \<open>An \<^verbatim>\<open>ignore.json\<close> that is valid JSON, with \<^verbatim>\<open>ignore_directories\<close> set to null;
  the parser also reads the configuration with two empty lists.\<close>

definition null_dirs_env :: env where
  \<open>null_dirs_env =
     \<lparr>ignore_json = Text ''{"ignore_directories": null}'',
      config_json = Missing,
      json_loads = (\<lambda>s. if s = ''{"ignore_directories": null}''
                          then Some (JObj [(''ignore_directories'', JNull)])
                          else if s = ''{"ignore_directories": [], "ignore_files": []}''
                          then Some (JObj [(''ignore_directories'', JArr []),
                                           (''ignore_files'', JArr [])])
                          else None),
      format_time = (\<lambda>t. Inr ''2024-01-01 00:00:00'')\<rparr>\<close>

text \<open>A directory whose ignored subdirectory holds a file that vanished after the
  listing.\<close>

definition trap_tree :: node where
  "trap_tree =
     Dir [(''cache'', Dir [(''x.sav'', File None)]),
          (''FOO.SAV'', File (Some 0)),
          (''Cache'', Dir [(''zelda.srm'', File (Some 0))])]"

section \<open>Properties\<close>

subsection \<open>Splitting, joining and searching strings\<close>

lemma starts_with_append [simp]: "starts_with (a @ b) a"
  by (induction a) simp_all

lemma split_on_not_Nil [simp]: "split_on c s \<noteq> []"
  by (induction s) (auto split: list.splits)

lemma split_on_no_sep: "c \<notin> set x \<Longrightarrow> split_on c x = [x]"
  by (induction x) auto

lemma split_on_append_sep:
  "c \<notin> set x \<Longrightarrow> split_on c (x @ c # rest) = x # split_on c rest"
  by (induction x) auto

lemma split_on_join_with:
  "xs \<noteq> [] \<Longrightarrow> \<forall>x\<in>set xs. c \<notin> set x \<Longrightarrow> split_on c (join_with [c] xs) = xs"
proof (induction "[c]" xs rule: join_with.induct)
  case 1
  then show ?case by simp
next
  case (2 x)
  then show ?case by (simp add: split_on_no_sep)
next
  case (3 x y ys)
  then show ?case by (simp add: split_on_append_sep)
qed

lemma join_with_snoc:
  "xs \<noteq> [] \<Longrightarrow> join_with sep (xs @ [x]) = join_with sep xs @ sep @ x"
  by (induction sep xs rule: join_with.induct) simp_all

lemma join_with_last:
  "xs \<noteq> [] \<Longrightarrow> last xs \<noteq> []
     \<Longrightarrow> join_with sep xs \<noteq> [] \<and> last (join_with sep xs) = last (last xs)"
  by (induction sep xs rule: join_with.induct) simp_all

lemma last_join_with:
  "xs \<noteq> [] \<Longrightarrow> last xs \<noteq> [] \<Longrightarrow> last (join_with sep xs) = last (last xs)"
  by (simp add: join_with_last)

lemma join_with_Nil_iff:
  "xs \<noteq> [] \<Longrightarrow> last xs \<noteq> [] \<Longrightarrow> join_with sep xs \<noteq> []"
  by (simp add: join_with_last)

lemma join_with_Cons_Cons:
  "join_with sep ((x # l) # ls) = x # join_with sep (l # ls)"
  by (cases ls) simp_all

lemma join_with_split_on: "join_with [c] (split_on c s) = s"
proof (induction s)
  case Nil
  then show ?case by simp
next
  case (Cons x s)
  obtain l ls where sp: "split_on c s = l # ls"
    by (cases "split_on c s") simp_all
  with Cons show ?case
    by (simp add: join_with_Cons_Cons)
qed

lemma hd_split_on: "hd (split_on c s) = takeWhile (\<lambda>x. x \<noteq> c) s"
proof (induction s)
  case Nil
  then show ?case by simp
next
  case (Cons x s)
  obtain l ls where "split_on c s = l # ls"
    by (cases "split_on c s") simp_all
  with Cons show ?case by simp
qed

lemma starts_with_before_sep:
  "c \<notin> set k \<Longrightarrow> starts_with (a @ c # b) k = starts_with a k"
proof (induction a arbitrary: k)
  case Nil
  then show ?case by (cases k) auto
next
  case (Cons x a)
  then show ?case by (cases k) auto
qed

lemma str_contains_across_sep:
  "k \<noteq> [] \<Longrightarrow> c \<notin> set k
     \<Longrightarrow> str_contains k (a @ c # b) = (str_contains k a \<or> str_contains k b)"
proof (induction a)
  case Nil
  then show ?case by (cases k) auto
next
  case (Cons x a)
  from Cons.prems(2) have "starts_with ((x # a) @ c # b) k = starts_with (x # a) k"
    by (rule starts_with_before_sep)
  with Cons show ?case by auto
qed

lemma str_contains_join_with:
  "k \<noteq> [] \<Longrightarrow> c \<notin> set k
     \<Longrightarrow> str_contains k (join_with [c] xs) = (\<exists>x\<in>set xs. str_contains k x)"
proof (induction "[c]" xs rule: join_with.induct)
  case 1
  then show ?case by simp
next
  case (2 x)
  then show ?case by simp
next
  case (3 x y ys)
  then show ?case by (simp add: str_contains_across_sep)
qed

lemma str_contains_split_on:
  assumes "k \<noteq> []" "c \<notin> set k"
  shows "str_contains k s = (\<exists>x\<in>set (split_on c s). str_contains k x)"
proof -
  have "str_contains k s = str_contains k (join_with [c] (split_on c s))"
    by (simp add: join_with_split_on)
  with assms show ?thesis
    by (simp add: str_contains_join_with)
qed

lemma str_contains_after_seps:
  "k \<noteq> [] \<Longrightarrow> c \<notin> set k \<Longrightarrow> \<forall>x\<in>set a. x = c
     \<Longrightarrow> str_contains k (a @ b) = str_contains k b"
proof (induction a)
  case Nil
  then show ?case by simp
next
  case (Cons x a)
  then show ?case by (cases k) auto
qed

lemma str_contains_dot: "k \<noteq> [] \<Longrightarrow> k \<noteq> ''.'' \<Longrightarrow> \<not> str_contains k ''.''"
proof (cases k)
  case Nil
  then show "k \<noteq> [] \<Longrightarrow> k \<noteq> ''.'' \<Longrightarrow> \<not> str_contains k ''.''" by simp
next
  case (Cons y ys)
  then show "k \<noteq> [] \<Longrightarrow> k \<noteq> ''.'' \<Longrightarrow> \<not> str_contains k ''.''" by (cases ys) auto
qed

lemma starts_with_shorter: "starts_with s (k @ k') \<Longrightarrow> starts_with s k"
  by (induction s k rule: starts_with.induct) auto

lemma str_contains_shorter: "str_contains (k @ k') s \<Longrightarrow> str_contains k s"
  by (induction s) (auto dest: starts_with_shorter)

lemma set_join_with: "set (join_with sep xs) \<subseteq> set sep \<union> \<Union> (set ` set xs)"
  by (induction sep xs rule: join_with.induct) auto

lemma set_split_on_part: "xs \<in> set (split_on c s) \<Longrightarrow> y \<in> set xs \<Longrightarrow> y \<in> set s"
proof (induction s arbitrary: xs)
  case Nil
  then show ?case by simp
next
  case (Cons x s)
  obtain l ls where sp: "split_on c s = l # ls"
    by (cases "split_on c s") simp_all
  show ?case
  proof (cases "x = c")
    case True
    with Cons.prems have "xs \<in> set (split_on c s)" by auto
    with Cons.IH Cons.prems(2) show ?thesis by auto
  next
    case False
    with Cons.prems(1) sp have "xs = x # l \<or> xs \<in> set ls" by simp
    then show ?thesis
    proof
      assume "xs = x # l"
      with Cons.prems(2) have "y = x \<or> y \<in> set l" by simp
      moreover from sp have "l \<in> set (split_on c s)" by simp
      ultimately show ?thesis using Cons.IH by auto
    next
      assume "xs \<in> set ls"
      with sp have "xs \<in> set (split_on c s)" by simp
      with Cons.IH Cons.prems(2) show ?thesis by auto
    qed
  qed
qed

lemma set_split_on: "\<Union> (set ` set (split_on c s)) \<subseteq> set s"
  by (auto dest: set_split_on_part)

subsection \<open>Path normalisation keeps the keys of the table\<close>

lemma path_root_slashes: "\<forall>x\<in>set (path_root p). x = CHR ''/''"
  by (simp add: path_root_def Let_def)

lemma str_contains_path_str:
  assumes k: "k \<noteq> []" and slash: "CHR ''/'' \<notin> set k" and dot: "k \<noteq> ''.''"
  shows "str_contains k (path_str p) = str_contains k p"
proof -
  let ?rest = "dropWhile is_slash p"
  let ?joined = "join_with ''/'' (path_parts p)"
  have parts: "str_contains k ?joined = str_contains k ?rest"
  proof -
    have "str_contains k ?joined = (\<exists>x\<in>set (path_parts p). str_contains k x)"
      using k slash by (rule str_contains_join_with)
    also have "\<dots> = (\<exists>x\<in>set (split_on CHR ''/'' ?rest). str_contains k x)"
      using k dot by (auto simp: path_parts_def dest: str_contains_dot)
    also have "\<dots> = str_contains k ?rest"
      using k slash by (rule str_contains_split_on [symmetric])
    finally show ?thesis .
  qed
  have whole: "str_contains k (path_root p @ ?joined) = str_contains k ?joined"
    using k slash path_root_slashes by (rule str_contains_after_seps)
  have "p = takeWhile is_slash p @ ?rest"
    by simp
  moreover have "\<forall>x\<in>set (takeWhile is_slash p). x = CHR ''/''"
    by (auto dest: set_takeWhileD simp: is_slash_def)
  ultimately have lead: "str_contains k p = str_contains k ?rest"
    using str_contains_after_seps [OF k slash, of "takeWhile is_slash p" ?rest] by simp
  show ?thesis
  proof (cases "path_root p @ ?joined = []")
    case True
    with parts k dot lead show ?thesis
      by (auto simp: path_str_def dest: str_contains_dot)
  next
    case False
    then have "path_str p = path_root p @ ?joined"
      by (simp add: path_str_def Let_def)
    with whole parts lead show ?thesis
      by simp
  qed
qed

lemma lower_char_idem: "lower_char (lower_char c) = lower_char c"
  by (auto simp: lower_char_def Let_def)

lemma lower_char_slash: "lower_char CHR ''/'' = CHR ''/''"
  by (simp add: lower_char_def)

lemma lower_char_dot: "lower_char CHR ''.'' = CHR ''.''"
  by (simp add: lower_char_def)

lemma set_path_str: "set (path_str p) \<subseteq> set p \<union> {CHR ''/'', CHR ''.''}"
proof -
  have "\<Union> (set ` set (path_parts p)) \<subseteq> \<Union> (set ` set (split_on CHR ''/'' (dropWhile is_slash p)))"
    by (auto simp: path_parts_def)
  also have "\<dots> \<subseteq> set (dropWhile is_slash p)"
    by (rule set_split_on)
  also have "\<dots> \<subseteq> set p"
    by (auto dest: set_dropWhileD)
  finally have "set (join_with ''/'' (path_parts p)) \<subseteq> set p \<union> {CHR ''/''}"
    using set_join_with [of "''/''" "path_parts p"] by fastforce
  moreover have "set (path_root p) \<subseteq> {CHR ''/''}"
    using path_root_slashes [of p] by auto
  ultimately show ?thesis
    by (auto simp: path_str_def Let_def)
qed

lemma lower_path_str: "lower (path_str (lower p)) = path_str (lower p)"
proof -
  have "lower_char c = c" if "c \<in> set (path_str (lower p))" for c
  proof -
    from that set_path_str [of "lower p"]
    have "c \<in> set (lower p) \<or> c = CHR ''/'' \<or> c = CHR ''.''" by auto
    then show ?thesis
      by (auto simp: lower_def lower_char_idem lower_char_slash lower_char_dot)
  qed
  then show ?thesis
    unfolding lower_def [of "path_str (lower p)"] by (simp add: map_idI)
qed

lemma key_in_normalised_path:
  assumes "k \<noteq> []" "CHR ''/'' \<notin> set k" "k \<noteq> ''.''"
  shows "str_contains k (lower (path_str (lower p))) = str_contains k (lower p)"
  using assms by (simp add: lower_path_str str_contains_path_str)

subsection \<open>Joined paths\<close>

lemma path_join_valid: "valid_name n \<Longrightarrow> path_join a n = dir_prefix a @ n"
  by (cases n) (auto simp: path_join_def dir_prefix_def valid_name_def)

lemma dir_prefix_after_name:
  "a \<noteq> [] \<Longrightarrow> last a \<noteq> CHR ''/'' \<Longrightarrow> dir_prefix a = a @ ''/''"
  by (simp add: dir_prefix_def)

lemma valid_name_last: "valid_name n \<Longrightarrow> last n \<noteq> CHR ''/''"
  by (metis last_in_set valid_name_def)

lemma foldl_path_join:
  "ns \<noteq> [] \<Longrightarrow> \<forall>n\<in>set ns. valid_name n
     \<Longrightarrow> foldl path_join root ns = dir_prefix root @ join_with ''/'' ns"
proof (induction ns rule: rev_induct)
  case Nil
  then show ?case by simp
next
  case (snoc n ns)
  show ?case
  proof (cases "ns = []")
    case True
    with snoc.prems show ?thesis by (simp add: path_join_valid)
  next
    case False
    from snoc.prems have vn: "valid_name n" and vns: "\<forall>m\<in>set ns. valid_name m"
      by simp_all
    from False vns have lv: "valid_name (last ns)" by simp
    then have ln: "last ns \<noteq> []" by (simp add: valid_name_def)
    let ?X = "dir_prefix root @ join_with ''/'' ns"
    from snoc.IH False vns have X: "foldl path_join root ns = ?X" by simp
    from False ln have j: "join_with ''/'' ns \<noteq> []" by (rule join_with_Nil_iff)
    then have ne: "?X \<noteq> []" by simp
    from j have "last ?X = last (join_with ''/'' ns)" by simp
    also from False ln have "\<dots> = last (last ns)" by (rule last_join_with)
    finally have "last ?X \<noteq> CHR ''/''" using lv by (simp add: valid_name_last)
    with ne have "dir_prefix ?X = ?X @ ''/''" by (rule dir_prefix_after_name)
    with vn X False show ?thesis
      by (simp add: path_join_valid join_with_snoc)
  qed
qed

lemma rel_components_joined:
  assumes "ns \<noteq> []" and "\<forall>n\<in>set ns. valid_name n"
  shows "rel_components root (foldl path_join root ns) = Some ns"
proof -
  from assms have "\<forall>n\<in>set ns. CHR ''/'' \<notin> set n"
    by (simp add: valid_name_def)
  with assms(1) have "split_on CHR ''/'' (join_with ''/'' ns) = ns"
    by (rule split_on_join_with)
  with assms show ?thesis
    by (simp add: rel_components_def foldl_path_join)
qed

subsection \<open>The classifier: the configured path of a label\<close>

lemma string_valued_lookup:
  assumes "string_valued kv" and "map_of (rev kv) name = Some v"
  obtains p where "v = JStr p"
proof -
  from assms(2) have "(name, v) \<in> set kv"
    by (auto dest: map_of_SomeD)
  with assms(1) have "is_JStr v"
    by (auto simp: string_valued_def list_all_iff)
  then show ?thesis
    using that by (cases v) simp_all
qed

lemma use_emulator_path_configured:
  assumes "string_valued kv"
  shows "use_emulator_path (JObj kv) (console, label, hardware)
           = Inr (console, JStr (spec_emulator (configured kv) label), hardware)"
proof (cases "map_of (rev kv) (takeWhile (\<lambda>x. x \<noteq> CHR ''/'') label)")
  case None
  then show ?thesis
    by (simp add: use_emulator_path_def dict_get_def hd_split_on spec_emulator_def
        configured_def)
next
  case (Some v)
  with assms obtain p where "v = JStr p"
    by (rule string_valued_lookup)
  with Some show ?thesis
    by (simp add: use_emulator_path_def dict_get_def hd_split_on spec_emulator_def
        configured_def)
qed

subsection \<open>The classifier: the triple of a path\<close>

lemma first_key_in_None:
  "\<forall>key\<in>fst ` set m. \<not> str_contains key path_s \<Longrightarrow> first_key_in path_s m = None"
  by (induction m) auto

lemma match_patterns_entry:
  "distinct (map fst ps) \<Longrightarrow> (ext, info) \<in> set ps
     \<Longrightarrow> match_patterns ep ext path_s ps = match_patterns ep ext path_s [(ext, info)]"
proof (induction ps)
  case Nil
  then show ?case by simp
next
  case (Cons a ps)
  obtain ext' info' where a: "a = (ext', info')" by (cases a)
  show ?case
  proof (cases "(ext, info) = a")
    case True
    with a show ?thesis by simp
  next
    case False
    with Cons.prems(2) have mem: "(ext, info) \<in> set ps" by simp
    with Cons.prems(1) a have "ext \<noteq> ext'" by (auto simp: rev_image_eqI)
    with Cons a mem show ?thesis by simp
  qed
qed

lemma console_patterns_distinct: "distinct (map fst console_patterns)"
  by (simp add: console_patterns_def)

lemma console_patterns_sub:
  assumes "(ext, Sub m) \<in> set console_patterns"
  shows "m \<noteq> []"
    and "\<forall>key\<in>fst ` set m. key \<noteq> [] \<and> CHR ''/'' \<notin> set key \<and> key \<noteq> ''.''"
  using assms by (auto simp: console_patterns_def)

lemma first_key_in_filter:
  "\<forall>key\<in>fst ` set m. str_contains key path_s = str_contains key q
     \<Longrightarrow> first_key_in path_s m
         = (case filter (\<lambda>e. str_contains (fst e) q) m of
              e # _ \<Rightarrow> Some (snd e)
            | [] \<Rightarrow> None)"
  by (induction m) auto

lemma match_patterns_select:
  assumes "string_valued kv"
    and "\<forall>sub. m = Sub sub
           \<longrightarrow> (\<forall>key\<in>fst ` set sub. str_contains key path_s = str_contains key q)"
    and "spec_select q m = Some (console, label, hardware)"
  shows "match_patterns (JObj kv) ext path_s [(ext, m)]
           = Inr (console, JStr (spec_emulator (configured kv) label), hardware)"
proof (cases m)
  case (Direct v)
  with assms(1,3) show ?thesis
    by (simp add: use_emulator_path_configured)
next
  case (Sub sub)
  with assms(2) have "\<forall>key\<in>fst ` set sub. str_contains key path_s = str_contains key q"
    by blast
  then have first:
    "first_key_in path_s sub
       = (case filter (\<lambda>e. str_contains (fst e) q) sub of
            e # _ \<Rightarrow> Some (snd e)
          | [] \<Rightarrow> None)"
    by (rule first_key_in_filter)
  show ?thesis
  proof (cases "filter (\<lambda>e. str_contains (fst e) q) sub")
    case Nil
    with assms(3) Sub obtain key rest where "sub = (key, console, label, hardware) # rest"
      by (cases sub) (auto split: list.splits)
    with Nil first Sub assms(1) show ?thesis
      by (simp add: use_emulator_path_configured)
  next
    case (Cons e es)
    with assms(3) Sub have "snd e = (console, label, hardware)"
      by simp
    with Cons first Sub assms(1) show ?thesis
      by (simp add: use_emulator_path_configured)
  qed
qed

text \<open>
  Claim C6. For every path whose extension is in the table, let (console, label,
  hardware) be the triple that the table's entry for that extension gives for the
  lower-cased path. With an \<^verbatim>\<open>emulator_paths\<close> object of strings, \<^verbatim>\<open>detect_console_type\<close>
  returns console and hardware unchanged, and as emulator the path configured for the
  first \<open>/\<close>-separated name of the label when that path is non-empty, and the full label
  otherwise.
\<close>

theorem detect_emulator_resolution:
  assumes "load_emulator_paths E = JObj kv"
    and "string_valued kv"
    and "(ext, info) \<in> set console_patterns"
    and "path_suffix (lower p) = ext"
    and "spec_select (lower p) info = Some (console, label, hardware)"
  shows "detect_console_type E p
           = Inr (console, JStr (spec_emulator (configured kv) label), hardware)"
proof -
  let ?path_s = "lower (path_str (lower p))"
  have keys: "\<forall>sub. info = Sub sub
      \<longrightarrow> (\<forall>key\<in>fst ` set sub. str_contains key ?path_s = str_contains key (lower p))"
  proof (intro allI impI)
    fix sub
    assume "info = Sub sub"
    with assms(3) have "(ext, Sub sub) \<in> set console_patterns" by simp
    then have "\<forall>key\<in>fst ` set sub. key \<noteq> [] \<and> CHR ''/'' \<notin> set key \<and> key \<noteq> ''.''"
      by (rule console_patterns_sub(2))
    then show "\<forall>key\<in>fst ` set sub. str_contains key ?path_s = str_contains key (lower p)"
      by (intro ballI key_in_normalised_path) blast+
  qed
  have "detect_console_type E p = match_patterns (JObj kv) ext ?path_s console_patterns"
    using assms(1,4) by (simp add: detect_console_type_def Let_def)
  also have "\<dots> = match_patterns (JObj kv) ext ?path_s [(ext, info)]"
    using console_patterns_distinct assms(3) by (rule match_patterns_entry)
  also have "\<dots> = Inr (console, JStr (spec_emulator (configured kv) label), hardware)"
    using assms(2) keys assms(5) by (rule match_patterns_select)
  finally show ?thesis .
qed

theorem detect_emulator_resolution_witness:
  "load_emulator_paths mgba_env = JObj [(''mGBA'', JStr ''/opt/mgba''), (''FCEUX'', JStr [])]
   \<and> string_valued [(''mGBA'', JStr ''/opt/mgba''), (''FCEUX'', JStr [])]
   \<and> (''.sav'', Sub [(''gb'', (''Game Boy'', ''mGBA/VBA'', ''Original'')),
                     (''gbc'', (''GBC'', ''mGBA/VBA'', ''Color'')),
                     (''gba'', (''GBA'', ''mGBA/VBA'', ''Advance'')),
                     (''nes'', (''NES'', ''FCEUX'', ''Original'')),
                     (''snes'', (''SNES'', ''SNES9x'', ''Original''))])
         \<in> set console_patterns
   \<and> path_suffix (lower ''/games/gb/tetris.sav'') = ''.sav''
   \<and> spec_select (lower ''/games/gb/tetris.sav'')
         (Sub [(''gb'', (''Game Boy'', ''mGBA/VBA'', ''Original'')),
               (''gbc'', (''GBC'', ''mGBA/VBA'', ''Color'')),
               (''gba'', (''GBA'', ''mGBA/VBA'', ''Advance'')),
               (''nes'', (''NES'', ''FCEUX'', ''Original'')),
               (''snes'', (''SNES'', ''SNES9x'', ''Original''))])
       = Some (''Game Boy'', ''mGBA/VBA'', ''Original'')
   \<and> detect_console_type mgba_env ''/games/gb/tetris.sav''
       = Inr (''Game Boy'', JStr ''/opt/mgba'', ''Original'')
   \<and> load_emulator_paths plain_env = JObj []
   \<and> string_valued []
   \<and> detect_console_type plain_env ''/games/gb/tetris.sav''
       = Inr (''Game Boy'', JStr ''mGBA/VBA'', ''Original'')
   \<and> (''.mcr'', Direct (''PS1'', ''ePSXe'', ''Original'')) \<in> set console_patterns
   \<and> path_suffix (lower ''/saves/FF7.MCR'') = ''.mcr''
   \<and> detect_console_type mgba_env ''/saves/FF7.MCR''
       = Inr (''PS1'', JStr ''ePSXe'', ''Original'')"
proof -
  let ?kv = "[(''mGBA'', JStr ''/opt/mgba''), (''FCEUX'', JStr [])]"
  let ?sav = "Sub [(''gb'', (''Game Boy'', ''mGBA/VBA'', ''Original'')),
                     (''gbc'', (''GBC'', ''mGBA/VBA'', ''Color'')),
                     (''gba'', (''GBA'', ''mGBA/VBA'', ''Advance'')),
                     (''nes'', (''NES'', ''FCEUX'', ''Original'')),
                     (''snes'', (''SNES'', ''SNES9x'', ''Original''))]"
  have h1: "load_emulator_paths mgba_env = JObj ?kv"
    by code_simp
  have h2: "string_valued ?kv"
    by code_simp
  have h3: "(''.sav'', ?sav) \<in> set console_patterns"
    by code_simp
  have h4: "path_suffix (lower ''/games/gb/tetris.sav'') = ''.sav''"
    by code_simp
  have h5: "spec_select (lower ''/games/gb/tetris.sav'') ?sav
              = Some (''Game Boy'', ''mGBA/VBA'', ''Original'')"
    by code_simp
  have v1: "spec_emulator (configured ?kv) ''mGBA/VBA'' = ''/opt/mgba''"
    by code_simp
  have g1: "load_emulator_paths plain_env = JObj []"
    by code_simp
  have g2: "string_valued []"
    by code_simp
  have v2: "spec_emulator (configured []) ''mGBA/VBA'' = ''mGBA/VBA''"
    by code_simp
  have d3: "(''.mcr'', Direct (''PS1'', ''ePSXe'', ''Original'')) \<in> set console_patterns"
    by code_simp
  have d4: "path_suffix (lower ''/saves/FF7.MCR'') = ''.mcr''"
    by code_simp
  have d5: "spec_select (lower ''/saves/FF7.MCR'') (Direct (''PS1'', ''ePSXe'', ''Original''))
              = Some (''PS1'', ''ePSXe'', ''Original'')"
    by simp
  have v3: "spec_emulator (configured ?kv) ''ePSXe'' = ''ePSXe''"
    by code_simp
  from detect_emulator_resolution [OF h1 h2 h3 h4 h5] v1
  have a: "detect_console_type mgba_env ''/games/gb/tetris.sav''
             = Inr (''Game Boy'', JStr ''/opt/mgba'', ''Original'')"
    by simp
  from detect_emulator_resolution [OF g1 g2 h3 h4 h5] v2
  have b: "detect_console_type plain_env ''/games/gb/tetris.sav''
             = Inr (''Game Boy'', JStr ''mGBA/VBA'', ''Original'')"
    by simp
  from detect_emulator_resolution [OF h1 h2 d3 d4 d5] v3
  have c: "detect_console_type mgba_env ''/saves/FF7.MCR''
             = Inr (''PS1'', JStr ''ePSXe'', ''Original'')"
    by simp
  from h1 h2 h3 h4 h5 a g1 g2 b d3 d4 c show ?thesis
    by (intro conjI)
qed

text \<open>
  Claim C7. When the extension selects a sub-mapping and none of its keys occurs in the
  lower-cased path, \<^verbatim>\<open>detect_console_type\<close> returns, without error, the first entry of
  the sub-mapping, with its emulator label resolved against the configuration.
\<close>

theorem detect_submapping_default:
  assumes "load_emulator_paths E = JObj kv"
    and "string_valued kv"
    and "(ext, Sub m) \<in> set console_patterns"
    and "path_suffix (lower p) = ext"
    and "\<forall>key\<in>fst ` set m. \<not> str_contains key (lower p)"
  shows "\<exists>key console label hardware rest.
           m = (key, console, label, hardware) # rest
           \<and> detect_console_type E p
               = Inr (console, JStr (spec_emulator (configured kv) label), hardware)"
proof -
  from assms(3) have ne: "m \<noteq> []"
    and keys: "\<forall>key\<in>fst ` set m. key \<noteq> [] \<and> CHR ''/'' \<notin> set key \<and> key \<noteq> ''.''"
    by (rule console_patterns_sub)+
  let ?path_s = "lower (path_str (lower p))"
  from keys assms(5) have "\<forall>key\<in>fst ` set m. \<not> str_contains key ?path_s"
    by (simp add: key_in_normalised_path)
  then have none: "first_key_in ?path_s m = None"
    by (rule first_key_in_None)
  from ne obtain key console label hardware rest where
    m: "m = (key, console, label, hardware) # rest"
    by (cases m) auto
  have "detect_console_type E p = match_patterns (JObj kv) ext ?path_s console_patterns"
    using assms(1,4) by (simp add: detect_console_type_def Let_def)
  also have "\<dots> = match_patterns (JObj kv) ext ?path_s [(ext, Sub m)]"
    using console_patterns_distinct assms(3) by (rule match_patterns_entry)
  also have "\<dots> = use_emulator_path (JObj kv) (console, label, hardware)"
    using none m by simp
  also have "\<dots> = Inr (console, JStr (spec_emulator (configured kv) label), hardware)"
    using assms(2) by (rule use_emulator_path_configured)
  finally show ?thesis
    using m by blast
qed

theorem detect_submapping_default_witness:
  "load_emulator_paths mgba_env = JObj [(''mGBA'', JStr ''/opt/mgba''), (''FCEUX'', JStr [])]
   \<and> string_valued [(''mGBA'', JStr ''/opt/mgba''), (''FCEUX'', JStr [])]
   \<and> (''.srm'', Sub [(''snes'', (''SNES'', ''SNES9x'', ''Original'')),
                     (''gba'', (''GBA'', ''mGBA'', ''Advance'')),
                     (''genesis'', (''Sega Genesis'', ''Fusion'', ''Original''))])
         \<in> set console_patterns
   \<and> path_suffix (lower ''/saves/Sonic.SRM'') = ''.srm''
   \<and> \<not> str_contains ''snes'' (lower ''/saves/Sonic.SRM'')
   \<and> \<not> str_contains ''gba'' (lower ''/saves/Sonic.SRM'')
   \<and> \<not> str_contains ''genesis'' (lower ''/saves/Sonic.SRM'')
   \<and> detect_console_type mgba_env ''/saves/Sonic.SRM''
       = Inr (''SNES'', JStr ''SNES9x'', ''Original'')"
proof -
  let ?kv = "[(''mGBA'', JStr ''/opt/mgba''), (''FCEUX'', JStr [])]"
  let ?m = "[(''snes'', (''SNES'', ''SNES9x'', ''Original'')),
             (''gba'', (''GBA'', ''mGBA'', ''Advance'')),
             (''genesis'', (''Sega Genesis'', ''Fusion'', ''Original''))]"
  have h1: "load_emulator_paths mgba_env = JObj ?kv"
    by code_simp
  have h2: "string_valued ?kv"
    by code_simp
  have h3: "(''.srm'', Sub ?m) \<in> set console_patterns"
    by code_simp
  have h4: "path_suffix (lower ''/saves/Sonic.SRM'') = ''.srm''"
    by code_simp
  have k1: "\<not> str_contains ''snes'' (lower ''/saves/Sonic.SRM'')"
    by code_simp
  have k2: "\<not> str_contains ''gba'' (lower ''/saves/Sonic.SRM'')"
    by code_simp
  have k3: "\<not> str_contains ''genesis'' (lower ''/saves/Sonic.SRM'')"
    by code_simp
  from k1 k2 k3 have h5: "\<forall>key\<in>fst ` set ?m. \<not> str_contains key (lower ''/saves/Sonic.SRM'')"
    by simp
  have v: "spec_emulator (configured ?kv) ''SNES9x'' = ''SNES9x''"
    by code_simp
  from detect_submapping_default [OF h1 h2 h3 h4 h5] v
  have "detect_console_type mgba_env ''/saves/Sonic.SRM''
          = Inr (''SNES'', JStr ''SNES9x'', ''Original'')"
    by auto
  with h1 h2 h3 h4 k1 k2 k3 show ?thesis
    by (intro conjI)
qed

lemma sav_entry:
  "(''.sav'', Sub [(''gb'', (''Game Boy'', ''mGBA/VBA'', ''Original'')),
                  (''gbc'', (''GBC'', ''mGBA/VBA'', ''Color'')),
                  (''gba'', (''GBA'', ''mGBA/VBA'', ''Advance'')),
                  (''nes'', (''NES'', ''FCEUX'', ''Original'')),
                  (''snes'', (''SNES'', ''SNES9x'', ''Original''))])
     \<in> set console_patterns"
  by (simp add: console_patterns_def)

text \<open>Every \<^verbatim>\<open>.sav\<close> path that contains \<open>gb\<close>, hence every one that contains \<open>gba\<close> or
  \<open>gbc\<close>, is classified as Game Boy.\<close>

lemma detect_sav_gb:
  assumes "load_emulator_paths E = JObj kv"
    and "string_valued kv"
    and "path_suffix (lower p) = ''.sav''"
    and "str_contains ''gb'' (lower p)"
  shows "detect_console_type E p
           = Inr (''Game Boy'', JStr (spec_emulator (configured kv) ''mGBA/VBA''), ''Original'')"
proof -
  let ?path_s = "lower (path_str (lower p))"
  from assms(4) have gb: "str_contains ''gb'' ?path_s"
    by (simp add: key_in_normalised_path)
  have "detect_console_type E p = match_patterns (JObj kv) ''.sav'' ?path_s console_patterns"
    using assms(1,3) by (simp add: detect_console_type_def Let_def)
  also note match_patterns_entry [OF console_patterns_distinct sav_entry]
  also have "match_patterns (JObj kv) ''.sav'' ?path_s
      [(''.sav'', Sub [(''gb'', (''Game Boy'', ''mGBA/VBA'', ''Original'')),
                  (''gbc'', (''GBC'', ''mGBA/VBA'', ''Color'')),
                  (''gba'', (''GBA'', ''mGBA/VBA'', ''Advance'')),
                  (''nes'', (''NES'', ''FCEUX'', ''Original'')),
                  (''snes'', (''SNES'', ''SNES9x'', ''Original''))])]
      = use_emulator_path (JObj kv) (''Game Boy'', ''mGBA/VBA'', ''Original'')"
    using gb by simp
  also note use_emulator_path_configured [OF assms(2)]
  finally show ?thesis .
qed

lemma detect_sav_gba:
  assumes "load_emulator_paths E = JObj kv"
    and "string_valued kv"
    and "path_suffix (lower p) = ''.sav''"
    and "str_contains ''gba'' (lower p)"
  shows "detect_console_type E p
           = Inr (''Game Boy'', JStr (spec_emulator (configured kv) ''mGBA/VBA''), ''Original'')"
proof -
  from assms(4) have "str_contains (''gb'' @ ''a'') (lower p)" by simp
  then have "str_contains ''gb'' (lower p)" by (rule str_contains_shorter)
  with assms(1-3) show ?thesis by (rule detect_sav_gb)
qed

text \<open>A \<^verbatim>\<open>.sav\<close> path that contains \<open>nes\<close> and not \<open>gb\<close> is classified as NES
  (\<open>snes\<close> comes after \<open>nes\<close> in the sub-mapping and is never selected either).\<close>

lemma detect_sav_nes:
  assumes "load_emulator_paths E = JObj kv"
    and "string_valued kv"
    and "path_suffix (lower p) = ''.sav''"
    and "str_contains ''nes'' (lower p)"
    and "\<not> str_contains ''gb'' (lower p)"
  shows "detect_console_type E p
           = Inr (''NES'', JStr (spec_emulator (configured kv) ''FCEUX''), ''Original'')"
proof -
  let ?path_s = "lower (path_str (lower p))"
  from assms(4) have nes: "str_contains ''nes'' ?path_s"
    by (simp add: key_in_normalised_path)
  from assms(5) have gb: "\<not> str_contains ''gb'' ?path_s"
    by (simp add: key_in_normalised_path)
  have "\<not> str_contains (''gb'' @ ''c'') ?path_s" "\<not> str_contains (''gb'' @ ''a'') ?path_s"
    using gb by (blast dest: str_contains_shorter)+
  then have gbc: "\<not> str_contains ''gbc'' ?path_s" and gba: "\<not> str_contains ''gba'' ?path_s"
    by simp_all
  have "detect_console_type E p = match_patterns (JObj kv) ''.sav'' ?path_s console_patterns"
    using assms(1,3) by (simp add: detect_console_type_def Let_def)
  also note match_patterns_entry [OF console_patterns_distinct sav_entry]
  also have "match_patterns (JObj kv) ''.sav'' ?path_s
      [(''.sav'', Sub [(''gb'', (''Game Boy'', ''mGBA/VBA'', ''Original'')),
                  (''gbc'', (''GBC'', ''mGBA/VBA'', ''Color'')),
                  (''gba'', (''GBA'', ''mGBA/VBA'', ''Advance'')),
                  (''nes'', (''NES'', ''FCEUX'', ''Original'')),
                  (''snes'', (''SNES'', ''SNES9x'', ''Original''))])]
      = use_emulator_path (JObj kv) (''NES'', ''FCEUX'', ''Original'')"
    using gb gbc gba nes by simp
  also note use_emulator_path_configured [OF assms(2)]
  finally show ?thesis .
qed

text \<open>
  Claim C1. A lower-cased \<^verbatim>\<open>.sav\<close> path that contains \<open>gba\<close> should be classified
  as GBA. The sub-mapping of \<^verbatim>\<open>.sav\<close> lists the key \<open>gb\<close> before \<open>gbc\<close> and
  \<open>gba\<close>, and \<open>gb\<close> occurs in every path in which \<open>gba\<close> occurs, so the scan stops at
  \<open>gb\<close>: the path \<^verbatim>\<open>/games/gba/pokemon.sav\<close> is classified as Game Boy, whatever
  the parser and the clock are.
\<close>

theorem detect_gba_sav_is_game_boy:
  "detect_console_type
     \<lparr>ignore_json = ign, config_json = Missing, json_loads = parse, format_time = fmt\<rparr>
     ''/games/gba/pokemon.sav''
   = Inr (''Game Boy'', JStr ''mGBA/VBA'', ''Original'')"
  by (simp add: detect_console_type_def lower_def lower_char_def path_suffix_def
      path_name_def path_parts_def is_slash_def rfind_def path_str_def path_root_def
      console_patterns_def load_emulator_paths_def use_emulator_path_def dict_get_def)

subsection \<open>The classifier: fallback and failure\<close>

text \<open>An extension that is not in the table gives the fallback, whatever the
  configuration is.\<close>

lemma match_patterns_fallback:
  "extension \<notin> fst ` set ps
     \<Longrightarrow> match_patterns ep extension path_s ps = Inr (''PC'', JStr ''Unknown'', ''Unknown'')"
  by (induction ps) auto

lemma detect_unknown_extension:
  "path_suffix (lower p) \<notin> fst ` set console_patterns
     \<Longrightarrow> detect_console_type E p = Inr (''PC'', JStr ''Unknown'', ''Unknown'')"
  by (simp add: detect_console_type_def Let_def match_patterns_fallback)

text \<open>When \<^verbatim>\<open>emulator_paths\<close> is an object, or the configuration cannot be loaded,
  a triple with a non-empty console type is returned for every path.\<close>

lemma use_emulator_path_object:
  "\<exists>e. use_emulator_path (JObj kv) (console, label, hardware) = Inr (console, e, hardware)"
  by (simp add: use_emulator_path_def Let_def)

lemma match_patterns_object:
  assumes "\<forall>(ext, info)\<in>set ps.
             (case info of
                Direct (c, l, h) \<Rightarrow> c \<noteq> []
              | Sub m \<Rightarrow> m \<noteq> [] \<and> (\<forall>(key, c, l, h)\<in>set m. c \<noteq> []))"
  shows "\<exists>c e h. match_patterns (JObj kv) extension path_s ps = Inr (c, e, h) \<and> c \<noteq> []"
  using assms
proof (induction ps)
  case Nil
  then show ?case by simp
next
  case (Cons a ps)
  obtain ext info where a: "a = (ext, info)" by (cases a)
  show ?case
  proof (cases "extension = ext")
    case False
    with Cons a show ?thesis by auto
  next
    case True
    show ?thesis
    proof (cases info)
      case (Direct v)
      obtain c l h where v: "v = (c, l, h)" by (cases v)
      with Cons.prems a Direct have "c \<noteq> []" by simp
      with use_emulator_path_object [of kv c l h] a True Direct v show ?thesis
        by auto
    next
      case (Sub m)
      from Cons.prems a Sub have ne: "m \<noteq> []"
        and each: "\<forall>(key, c, l, h)\<in>set m. c \<noteq> []"
        by simp_all
      have found: "\<exists>key. (key, v) \<in> set m" if "first_key_in path_s m = Some v" for v
        using that by (induction m) (auto split: if_splits)
      show ?thesis
      proof (cases "first_key_in path_s m")
        case (Some v)
        obtain c l h where v: "v = (c, l, h)" by (cases v)
        from found [OF Some] each v have "c \<noteq> []" by auto
        with use_emulator_path_object [of kv c l h] a True Sub Some v show ?thesis
          by auto
      next
        case None
        from ne obtain key c l h rest where m: "m = (key, c, l, h) # rest"
          by (cases m) auto
        with each have "c \<noteq> []" by simp
        with use_emulator_path_object [of kv c l h] a True Sub None m show ?thesis
          by auto
      qed
    qed
  qed
qed

lemma detect_returns_with_object:
  assumes "load_emulator_paths E = JObj kv"
  shows "\<exists>c e h. detect_console_type E p = Inr (c, e, h) \<and> c \<noteq> []"
proof -
  have "\<forall>(ext, info)\<in>set console_patterns.
             (case info of
                Direct (c, l, h) \<Rightarrow> c \<noteq> []
              | Sub m \<Rightarrow> m \<noteq> [] \<and> (\<forall>(key, c, l, h)\<in>set m. c \<noteq> []))"
    by (simp add: console_patterns_def)
  from match_patterns_object [OF this] assms show ?thesis
    by (simp add: detect_console_type_def Let_def)
qed

lemma load_emulator_paths_unloadable:
  assumes "config_json E = Missing \<or> config_json E = Unreadable
           \<or> (\<exists>t. config_json E = Text t \<and> json_loads E (universal_newlines t) = None)"
  shows "load_emulator_paths E = JObj []"
  using assms by (auto simp: load_emulator_paths_def)

text \<open>
  Claim C5. \<^verbatim>\<open>detect_console_type\<close> should return a triple for every path and never
  raise. The lookup \<^verbatim>\<open>emulator_paths.get\<close> is outside the try block that guards the
  loading of \<^verbatim>\<open>config.json\<close>: with \<^verbatim>\<open>{"emulator_paths": null}\<close> in that file, a path
  with a known extension raises AttributeError.
\<close>

theorem detect_raises_on_null_emulator_paths:
  "detect_console_type null_paths_env ''/saves/crash.mcr'' = Inl AttributeError"
  by code_simp

subsection \<open>The scanner: game names\<close>
















subsection \<open>The scanner: a root that cannot be listed\<close>







subsection \<open>The scanner: anomalies below the root\<close>

lemma is_dir_listable [simp]: "is_dir (listable t) = is_dir t"
  by (cases t) simp_all

lemma dir_names_listable [simp]: "dir_names (listable_entries es) = dir_names es"
  by (induction es rule: dir_names.induct) simp_all

lemma file_entries_listable [simp]:
  "file_entries (listable_entries es) = file_entries es"
  by (induction es rule: file_entries.induct) simp_all

lemma walk_listable:
  "walk E idirs ifiles root (listable t) = walk E idirs ifiles root t"
  "walk_dirs E idirs ifiles root dirs (listable_entries es)
     = walk_dirs E idirs ifiles root dirs es"
proof (induction E idirs ifiles root t and E idirs ifiles root dirs es
       rule: walk_walk_dirs.induct)
  case (3 E ignore_dirs ignore_files root es)
  show ?case
  proof (cases "has_nul root")
    case True
    then show ?thesis by simp
  next
    case False
    note path_ok = this
    show ?thesis
    proof (cases "keep_dirs ignore_dirs (dir_names es)")
      case (Inr dirs)
      note kept = this
      show ?thesis
      proof (cases "scan_files E ignore_files root (file_entries es)")
        case (Inr recs)
        with path_ok kept "3.IH" [OF path_ok kept Inr] show ?thesis by simp
      qed (simp add: path_ok kept)
    qed (simp add: path_ok)
  qed
next
  case (5 E ignore_dirs ignore_files root dirs n t es)
  show ?case
  proof (cases "is_dir t \<and> n \<in> set dirs")
    case True
    note descend = this
    show ?thesis
    proof (cases "walk E ignore_dirs ignore_files (path_join root n) t")
      case (Inl e)
      with descend "5.IH"(1) show ?thesis by simp
    next
      case (Inr recs)
      with descend "5.IH"(1) "5.IH"(2) [OF descend Inr] show ?thesis by simp
    qed
  next
    case False
    with "5.IH"(3) show ?thesis by auto
  qed
qed simp_all

lemma file_entries_member:
  "(f, File m) \<in> set es \<Longrightarrow> (f, m) \<in> set (file_entries es)"
  by (induction es rule: file_entries.induct) auto

lemma scan_files_stat_failure:
  "(f, None) \<in> set entries \<Longrightarrow> py_in f ifiles = Inr False
     \<Longrightarrow> lower (path_suffix f) \<in> set save_extensions
     \<Longrightarrow> isl (scan_files E ifiles root entries)"
proof (induction entries)
  case Nil
  then show ?case by simp
next
  case (Cons a entries)
  obtain g m where a: "a = (g, m)" by (cases a)
  show ?case
  proof (cases "(f, None) = a")
    case True
    with Cons.prems a show ?thesis
      by (simp add: scan_file_def Let_def)
  next
    case False
    with Cons a have "isl (scan_files E ifiles root entries)" by auto
    then show ?thesis
      by (cases "scan_file E ifiles root g m"; cases "scan_files E ifiles root entries")
         (simp_all add: a)
  qed
qed

lemma keep_dirs_keeps:
  "keep_dirs idirs names = Inr dirs \<Longrightarrow> n \<in> set names \<Longrightarrow> py_in n idirs = Inr False
     \<Longrightarrow> n \<in> set dirs"
proof (induction names arbitrary: dirs)
  case Nil
  then show ?case by simp
next
  case (Cons d ds)
  then show ?case
    by (auto split: sum.splits if_splits)
qed

lemma scan_files_unreadable:
  assumes "list_ex (unreadable_match ifiles) entries"
  shows "isl (scan_files E ifiles root entries)"
proof -
  from assms obtain f m where "(f, m) \<in> set entries" "unreadable_match ifiles (f, m)"
    by (auto simp: list_ex_iff)
  then show ?thesis
    by (auto simp: unreadable_match_def intro: scan_files_stat_failure)
qed

lemma walk_meets_unreadable:
  "meets_unreadable idirs ifiles t \<Longrightarrow> isl (walk E idirs ifiles root t)"
  "meets_unreadable_below idirs ifiles es
     \<Longrightarrow> \<forall>n\<in>set (dir_names es). py_in n idirs = Inr False \<longrightarrow> n \<in> set dirs
     \<Longrightarrow> isl (walk_dirs E idirs ifiles root dirs es)"
proof (induction E idirs ifiles root t and E idirs ifiles root dirs es
       rule: walk_walk_dirs.induct)
  case (1 E ignore_dirs ignore_files root m)
  then show ?case by simp
next
  case (2 E ignore_dirs ignore_files root)
  then show ?case by simp
next
  case (3 E ignore_dirs ignore_files root es)
  show ?case
  proof (cases "has_nul root")
    case True
    then show ?thesis by simp
  next
    case False
    note path_ok = this
    show ?thesis
    proof (cases "keep_dirs ignore_dirs (dir_names es)")
      case (Inl e)
      with path_ok show ?thesis by simp
    next
      case (Inr dirs)
      note kept = this
      show ?thesis
      proof (cases "scan_files E ignore_files root (file_entries es)")
        case (Inl e)
        with path_ok kept show ?thesis by simp
      next
        case (Inr recs)
        then have "\<not> list_ex (unreadable_match ignore_files) (file_entries es)"
          by (auto dest: scan_files_unreadable [where E = E and root = root])
        with "3.prems" have below: "meets_unreadable_below ignore_dirs ignore_files es"
          by simp
        from kept
        have "\<forall>n\<in>set (dir_names es). py_in n ignore_dirs = Inr False \<longrightarrow> n \<in> set dirs"
          by (blast dest: keep_dirs_keeps)
        from "3.IH" [OF path_ok kept Inr below this] path_ok kept Inr show ?thesis
          by (cases "walk_dirs E ignore_dirs ignore_files root dirs es") simp_all
      qed
    qed
  qed
next
  case (4 E ignore_dirs ignore_files root dirs)
  then show ?case by simp
next
  case (5 E ignore_dirs ignore_files root dirs n t es)
  show ?case
  proof (cases "is_dir t \<and> n \<in> set dirs")
    case True
    note descend = this
    from "5.prems"(2) have rest: "\<forall>m\<in>set (dir_names es). py_in m ignore_dirs = Inr False \<longrightarrow> m \<in> set dirs"
      by (auto split: if_splits)
    show ?thesis
    proof (cases "walk E ignore_dirs ignore_files (path_join root n) t")
      case (Inl e)
      with descend show ?thesis by simp
    next
      case (Inr recs)
      then have "\<not> meets_unreadable ignore_dirs ignore_files t"
        using "5.IH"(1) [OF descend] by auto
      with "5.prems"(1) have "meets_unreadable_below ignore_dirs ignore_files es"
        by simp
      from "5.IH"(2) [OF descend Inr this rest] descend Inr show ?thesis
        by (cases "walk_dirs E ignore_dirs ignore_files root dirs es") simp_all
    qed
  next
    case False
    with "5.prems"(2) have "\<not> (is_dir t \<and> py_in n ignore_dirs = Inr False)"
      by auto
    with "5.prems"(1) have below: "meets_unreadable_below ignore_dirs ignore_files es"
      by auto
    from "5.prems"(2) have rest: "\<forall>m\<in>set (dir_names es). py_in m ignore_dirs = Inr False \<longrightarrow> m \<in> set dirs"
      by (auto split: if_splits)
    from "5.IH"(3) [OF False below rest] False show ?thesis
      by auto
  qed
qed

text \<open>
  Claim C3, as stated, fails: with \<^verbatim>\<open>b.sav\<close> removed between listing and stat, the
  scan raises OSError, the record of \<^verbatim>\<open>a.sav\<close> is lost with it, and the thread emits
  the error signal.
\<close>

theorem scan_vanished_file_example:
  "scan_directory plain_env ''/r'' (Some vanished_tree) = Inl OSError
   \<and> run plain_env ''/r'' (Some vanished_tree)
       = [progress_signal ''Starting scan...'', error_signal OSError]"
  by code_simp

text \<open>
  Claim C3, amended. A subdirectory that cannot be listed is tolerated: the scan gives
  what it gives when that directory is empty, so only that subtree is missing from the
  result. A matching file whose modification time cannot be read (removed between
  listing and stat) is not tolerated: wherever the walk meets one, \<^verbatim>\<open>scan_directory\<close>
  raises, and returns no records at all.
\<close>

theorem scan_entry_anomaly:
  "scan_directory E directory (Some (listable t)) = scan_directory E directory (Some t)
   \<and> (meets_unreadable (fst (load_ignore_list E)) (snd (load_ignore_list E)) t
       \<longrightarrow> (\<exists>e. scan_directory E directory (Some t) = Inl e))"
proof -
  have a: "scan_directory E directory (Some (listable t)) = scan_directory E directory (Some t)"
    by (simp add: scan_directory_def walk_listable split: prod.split)
  have b: "\<exists>e. scan_directory E directory (Some t) = Inl e"
    if "meets_unreadable (fst (load_ignore_list E)) (snd (load_ignore_list E)) t"
  proof -
    obtain idirs ifiles where l: "load_ignore_list E = (idirs, ifiles)"
      by (cases "load_ignore_list E")
    with that have "isl (walk E idirs ifiles directory t)"
      by (simp add: walk_meets_unreadable(1))
    with l have "isl (scan_directory E directory (Some t))"
      by (simp add: scan_directory_def)
    then show ?thesis
      by (cases "scan_directory E directory (Some t)") auto
  qed
  from a b show ?thesis by blast
qed

theorem scan_entry_anomaly_witness:
  "meets_unreadable (fst (load_ignore_list plain_env)) (snd (load_ignore_list plain_env))
     nested_vanished_tree
   \<and> (\<exists>e. scan_directory plain_env ''/r'' (Some nested_vanished_tree) = Inl e)
   \<and> scan_directory plain_env ''/r'' (Some (listable nested_vanished_tree))
      = scan_directory plain_env ''/r'' (Some nested_vanished_tree)"
proof -
  have h: "meets_unreadable (fst (load_ignore_list plain_env))
             (snd (load_ignore_list plain_env)) nested_vanished_tree"
    by code_simp
  from h scan_entry_anomaly [of plain_env "''/r''" nested_vanished_tree]
  show ?thesis by blast
qed

subsection \<open>The scanner: an ignore configuration that cannot be used\<close>

lemma load_emulator_paths_ignore_json:
  "load_emulator_paths (E\<lparr>ignore_json := x\<rparr>) = load_emulator_paths E"
  by (cases "config_json E") (simp_all add: load_emulator_paths_def)

lemma detect_console_type_ignore_json:
  "detect_console_type (E\<lparr>ignore_json := x\<rparr>) p = detect_console_type E p"
  by (simp add: detect_console_type_def load_emulator_paths_ignore_json)

lemma format_time_ignore_json:
  "format_time (E\<lparr>ignore_json := x\<rparr>) t = format_time E t"
  by simp

lemma scan_file_ignore_json:
  "scan_file (E\<lparr>ignore_json := x\<rparr>) ifiles root f m = scan_file E ifiles root f m"
  unfolding scan_file_def detect_console_type_ignore_json format_time_ignore_json ..

lemma scan_files_ignore_json:
  "scan_files (E\<lparr>ignore_json := x\<rparr>) ifiles root fs = scan_files E ifiles root fs"
  by (induction fs) (auto simp: scan_file_ignore_json split: sum.splits)

lemma walk_ignore_json:
  "walk (E\<lparr>ignore_json := x\<rparr>) idirs ifiles root t = walk E idirs ifiles root t"
  "walk_dirs (E\<lparr>ignore_json := x\<rparr>) idirs ifiles root dirs es
     = walk_dirs E idirs ifiles root dirs es"
proof (induction E idirs ifiles root t and E idirs ifiles root dirs es
       rule: walk_walk_dirs.induct)
  case (3 E ignore_dirs ignore_files root es)
  show ?case
  proof (cases "has_nul root")
    case True
    then show ?thesis by simp
  next
    case False
    note path_ok = this
    show ?thesis
    proof (cases "keep_dirs ignore_dirs (dir_names es)")
      case (Inr dirs)
      note kept = this
      show ?thesis
      proof (cases "scan_files E ignore_files root (file_entries es)")
        case (Inr recs)
        with path_ok kept "3.IH" [OF path_ok kept Inr] show ?thesis
          by (simp add: scan_files_ignore_json)
      qed (simp add: path_ok kept scan_files_ignore_json)
    qed (simp add: path_ok)
  qed
next
  case (5 E ignore_dirs ignore_files root dirs n t es)
  show ?case
  proof (cases "is_dir t \<and> n \<in> set dirs")
    case True
    note descend = this
    show ?thesis
    proof (cases "walk E ignore_dirs ignore_files (path_join root n) t")
      case (Inl e)
      with descend "5.IH"(1) show ?thesis by simp
    next
      case (Inr recs)
      with descend "5.IH"(1) "5.IH"(2) [OF descend Inr] show ?thesis by simp
    qed
  next
    case False
    with "5.IH"(3) show ?thesis by auto
  qed
qed simp_all

lemma load_ignore_list_unusable:
  "ignore_unusable E \<Longrightarrow> load_ignore_list E = (JArr [], JArr [])"
  by (auto simp: ignore_unusable_def load_ignore_list_def
           split: conf_file.splits option.splits json.splits)

text \<open>When the ignore configuration is missing, unreadable, unparsable or not an
  object, the loader returns two empty lists, and \<^verbatim>\<open>scan_directory\<close> gives, on every
  tree, exactly what it gives with a configuration file that holds two empty lists.\<close>

lemma scan_unusable_like_empty_lists:
  assumes "ignore_unusable E"
    and "json_loads E (strip_comments empty_text)
           = Some (JObj [(''ignore_directories'', JArr []), (''ignore_files'', JArr [])])"
  shows "load_ignore_list E = (JArr [], JArr [])
         \<and> load_ignore_list (E\<lparr>ignore_json := Text empty_text\<rparr>) = (JArr [], JArr [])
         \<and> scan_directory E directory tree
             = scan_directory (E\<lparr>ignore_json := Text empty_text\<rparr>) directory tree"
proof -
  have a: "load_ignore_list E = (JArr [], JArr [])"
    using assms(1) by (rule load_ignore_list_unusable)
  have b: "load_ignore_list (E\<lparr>ignore_json := Text empty_text\<rparr>) = (JArr [], JArr [])"
    using assms(2) by (simp add: load_ignore_list_def dict_get_def)
  have c: "scan_directory E directory tree
             = scan_directory (E\<lparr>ignore_json := Text empty_text\<rparr>) directory tree"
    by (cases tree) (simp_all add: scan_directory_def a b walk_ignore_json)
  from a b c show ?thesis by (intro conjI)
qed

lemma scan_unusable_like_empty_lists_example:
  \<open>ignore_unusable broken_ignore_env
   \<and> json_loads broken_ignore_env
        (strip_comments ''{"ignore_directories": [], "ignore_files": []}'')
       = Some (JObj [(''ignore_directories'', JArr []), (''ignore_files'', JArr [])])
   \<and> scan_directory broken_ignore_env ''/r'' (Some cache_tree)
       = scan_directory
           (broken_ignore_env
              \<lparr>ignore_json := Text ''{"ignore_directories": [], "ignore_files": []}''\<rparr>)
           ''/r'' (Some cache_tree)\<close>
proof -
  have h1: "ignore_unusable broken_ignore_env"
    by code_simp
  have h2: \<open>json_loads broken_ignore_env
        (strip_comments ''{"ignore_directories": [], "ignore_files": []}'')
       = Some (JObj [(''ignore_directories'', JArr []), (''ignore_files'', JArr [])])\<close>
    by code_simp
  from h1 h2 scan_unusable_like_empty_lists [OF h1 h2, of "''/r''" "Some cache_tree"]
  show ?thesis by (intro conjI) simp_all
qed

text \<open>
  Claim C9. A missing or malformed ignore configuration should give the scan that two
  empty lists give, the loader absorbing every failure. The loader absorbs what fails
  while it reads and parses; an \<^verbatim>\<open>ignore.json\<close> that parses to an object is passed on
  as it is. With \<^verbatim>\<open>{"ignore_directories": null}\<close> the loader returns \<^verbatim>\<open>None\<close> for the
  directories, line 120 raises TypeError at the first directory that has a
  subdirectory, and the thread emits the error signal, where the configuration with two
  empty lists gives four records.
\<close>

theorem scan_raises_on_null_ignore_directories:
  \<open>load_ignore_list null_dirs_env = (JNull, JArr [])
   \<and> scan_directory null_dirs_env ''/r'' (Some cache_tree) = Inl TypeError
   \<and> run null_dirs_env ''/r'' (Some cache_tree)
       = [progress_signal ''Starting scan...'', error_signal TypeError]
   \<and> load_ignore_list
        (null_dirs_env\<lparr>ignore_json := Text ''{"ignore_directories": [], "ignore_files": []}''\<rparr>)
       = (JArr [], JArr [])
   \<and> map_sum id (map save_path)
        (scan_directory
           (null_dirs_env\<lparr>ignore_json := Text ''{"ignore_directories": [], "ignore_files": []}''\<rparr>)
           ''/r'' (Some cache_tree))
       = Inr [''/r/FOO.SAV'', ''/r/foo.sav'', ''/r/cache/x.sav'', ''/r/Cache/zelda.srm'']\<close>
  by code_simp

subsection \<open>The scanner: ignored directories are never entered\<close>

lemma keep_dirs_kept:
  "keep_dirs idirs names = Inr dirs \<Longrightarrow> n \<in> set dirs \<Longrightarrow> py_in n idirs = Inr False"
proof (induction names arbitrary: dirs)
  case Nil
  then show ?case by simp
next
  case (Cons d ds)
  then show ?case
    by (auto split: sum.splits if_splits)
qed

lemma scan_file_path:
  "scan_file E ifiles root f m = Inr (Some r) \<Longrightarrow> save_path r = path_join root f"
  by (auto simp: scan_file_def Let_def split: sum.splits bool.splits if_splits option.splits)

lemma scan_files_paths:
  "scan_files E ifiles root entries = Inr recs \<Longrightarrow> r \<in> set recs
     \<Longrightarrow> \<exists>f m. (f, m) \<in> set entries \<and> save_path r = path_join root f"
proof (induction entries arbitrary: recs)
  case Nil
  then show ?case by simp
next
  case (Cons a entries)
  obtain g m where a: "a = (g, m)" by (cases a)
  from Cons.prems(1) a obtain x rs where
    x: "scan_file E ifiles root g m = Inr x" and
    rs: "scan_files E ifiles root entries = Inr rs" and
    recs: "recs = (case x of None \<Rightarrow> [] | Some y \<Rightarrow> [y]) @ rs"
    by (auto split: sum.splits)
  show ?case
  proof (cases "r \<in> set rs")
    case True
    with Cons.IH [OF rs] show ?thesis by auto
  next
    case False
    with Cons.prems(2) recs have "x = Some r"
      by (cases x) auto
    with x a show ?thesis
      by (auto dest: scan_file_path)
  qed
qed

lemma file_entries_valid:
  "wf_entries es \<Longrightarrow> (f, m) \<in> set (file_entries es) \<Longrightarrow> valid_name f"
  by (induction es rule: file_entries.induct) auto

lemma reached_here:
  "valid_name f \<Longrightarrow> reached idirs root (path_join root f)"
  unfolding reached_def by (intro exI [of _ "[]"] exI [of _ f]) simp

lemma reached_below:
  assumes "reached idirs (path_join root n) p" "py_in n idirs = Inr False" "valid_name n"
  shows "reached idirs root p"
proof -
  from assms(1) obtain route f where
    "p = foldl path_join (path_join root n) (route @ [f])" "valid_name f"
    "\<forall>m\<in>set route. valid_name m \<and> py_in m idirs = Inr False"
    unfolding reached_def by blast
  with assms(2,3) show ?thesis
    unfolding reached_def by (intro exI [of _ "n # route"] exI [of _ f]) simp
qed

lemma walk_reached:
  "walk E idirs ifiles root t = Inr recs \<Longrightarrow> wf_node t \<Longrightarrow> r \<in> set recs
     \<Longrightarrow> reached idirs root (save_path r)"
  "walk_dirs E idirs ifiles root dirs es = Inr recs \<Longrightarrow> wf_entries es
     \<Longrightarrow> \<forall>n\<in>set dirs. py_in n idirs = Inr False \<Longrightarrow> r \<in> set recs
     \<Longrightarrow> reached idirs root (save_path r)"
proof (induction E idirs ifiles root t and E idirs ifiles root dirs es
       arbitrary: recs and recs rule: walk_walk_dirs.induct)
  case (1 E ignore_dirs ignore_files root m)
  then show ?case by (simp split: if_splits)
next
  case (2 E ignore_dirs ignore_files root)
  then show ?case by (simp split: if_splits)
next
  case (3 E ignore_dirs ignore_files root es)
  from "3.prems"(1) obtain dirs fr sub where
    path_ok: "\<not> has_nul root" and
    dirs: "keep_dirs ignore_dirs (dir_names es) = Inr dirs" and
    fr: "scan_files E ignore_files root (file_entries es) = Inr fr" and
    sub: "walk_dirs E ignore_dirs ignore_files root dirs es = Inr sub" and
    recs: "recs = fr @ sub"
    by (auto split: sum.splits if_splits)
  from "3.prems"(2) have wf: "wf_entries es" by simp
  show ?case
  proof (cases "r \<in> set fr")
    case True
    with fr obtain f m where "(f, m) \<in> set (file_entries es)"
      "save_path r = path_join root f"
      by (blast dest: scan_files_paths)
    with wf show ?thesis
      by (auto dest: file_entries_valid intro: reached_here)
  next
    case False
    with "3.prems"(3) recs have "r \<in> set sub" by simp
    moreover from dirs have "\<forall>n\<in>set dirs. py_in n ignore_dirs = Inr False"
      by (blast dest: keep_dirs_kept)
    ultimately show ?thesis
      using "3.IH" [OF path_ok dirs fr sub wf] by blast
  qed
next
  case (4 E ignore_dirs ignore_files root dirs)
  then show ?case by simp
next
  case (5 E ignore_dirs ignore_files root dirs n t es)
  from "5.prems"(2) have vn: "valid_name n" and wt: "wf_node t" and wes: "wf_entries es"
    by simp_all
  show ?case
  proof (cases "is_dir t \<and> n \<in> set dirs")
    case True
    with "5.prems"(1) obtain rs sub where
      rs: "walk E ignore_dirs ignore_files (path_join root n) t = Inr rs" and
      sub: "walk_dirs E ignore_dirs ignore_files root dirs es = Inr sub" and
      recs: "recs = rs @ sub"
      by (auto split: sum.splits)
    show ?thesis
    proof (cases "r \<in> set rs")
      case True
      with "5.IH"(1) [OF \<open>is_dir t \<and> n \<in> set dirs\<close> rs wt]
      have "reached ignore_dirs (path_join root n) (save_path r)" .
      moreover from \<open>is_dir t \<and> n \<in> set dirs\<close> "5.prems"(3)
      have "py_in n ignore_dirs = Inr False" by blast
      ultimately show ?thesis using vn by (rule reached_below)
    next
      case False
      with "5.prems"(4) recs have "r \<in> set sub" by simp
      with "5.IH"(2) [OF \<open>is_dir t \<and> n \<in> set dirs\<close> rs sub wes "5.prems"(3)]
      show ?thesis .
    qed
  next
    case False
    with "5.prems"(1) have "walk_dirs E ignore_dirs ignore_files root dirs es = Inr recs"
      by auto
    from "5.IH"(3) [OF False this wes "5.prems"(3) "5.prems"(4)] show ?thesis .
  qed
qed

lemma reached_not_under:
  assumes "reached idirs root p" and "py_in d idirs = Inr True"
  shows "\<not> lies_under root d p"
proof -
  from assms(1) obtain route f where
    p: "p = foldl path_join root (route @ [f])" and "valid_name f" and
    route: "\<forall>n\<in>set route. valid_name n \<and> py_in n idirs = Inr False"
    unfolding reached_def by blast
  then have "\<forall>n\<in>set (route @ [f]). valid_name n" by auto
  then have "rel_components root p = Some (route @ [f])"
    unfolding p by (intro rel_components_joined) simp_all
  moreover from route assms(2) have "d \<notin> set route" by auto
  ultimately show ?thesis
    by (simp add: lies_under_def)
qed

lemma is_dir_without_ignored [simp]: "is_dir (without_ignored idirs t) = is_dir t"
  by (cases t) simp_all

lemma dir_names_without_ignored [simp]:
  "dir_names (without_ignored_entries idirs es) = dir_names es"
  by (induction es rule: dir_names.induct) simp_all

lemma file_entries_without_ignored [simp]:
  "file_entries (without_ignored_entries idirs es) = file_entries es"
  by (induction es rule: file_entries.induct) simp_all

lemma walk_without_ignored:
  "walk E idirs ifiles root (without_ignored idirs t) = walk E idirs ifiles root t"
  "\<forall>n\<in>set dirs. py_in n idirs = Inr False
     \<Longrightarrow> walk_dirs E idirs ifiles root dirs (without_ignored_entries idirs es)
         = walk_dirs E idirs ifiles root dirs es"
proof (induction E idirs ifiles root t and E idirs ifiles root dirs es
       rule: walk_walk_dirs.induct)
  case (1 E ignore_dirs ignore_files root m)
  then show ?case by simp
next
  case (2 E ignore_dirs ignore_files root)
  then show ?case by simp
next
  case (3 E ignore_dirs ignore_files root es)
  show ?case
  proof (cases "has_nul root")
    case True
    then show ?thesis by simp
  next
    case False
    note path_ok = this
    show ?thesis
    proof (cases "keep_dirs ignore_dirs (dir_names es)")
      case (Inl e)
      with path_ok show ?thesis by simp
    next
      case (Inr dirs)
      note kept = this
      then have all_kept: "\<forall>n\<in>set dirs. py_in n ignore_dirs = Inr False"
        by (blast dest: keep_dirs_kept)
      show ?thesis
      proof (cases "scan_files E ignore_files root (file_entries es)")
        case (Inl e)
        with path_ok kept show ?thesis by simp
      next
        case (Inr recs)
        with path_ok kept "3.IH" [OF path_ok kept Inr all_kept] show ?thesis by simp
      qed
    qed
  qed
next
  case (4 E ignore_dirs ignore_files root dirs)
  then show ?case by simp
next
  case (5 E ignore_dirs ignore_files root dirs n t es)
  show ?case
  proof (cases "is_dir t \<and> n \<in> set dirs")
    case True
    note descend = this
    with "5.prems" have "py_in n ignore_dirs = Inr False" by blast
    then have same: "(if is_dir t \<and> py_in n ignore_dirs = Inr True then Dir []
                      else without_ignored ignore_dirs t) = without_ignored ignore_dirs t"
      by simp
    show ?thesis
    proof (cases "walk E ignore_dirs ignore_files (path_join root n) t")
      case (Inl e)
      with descend same "5.IH"(1) show ?thesis by simp
    next
      case (Inr recs)
      with descend same "5.IH"(1) "5.IH"(2) [OF descend Inr "5.prems"] show ?thesis
        by simp
    qed
  next
    case False
    have "\<not> (is_dir (if is_dir t \<and> py_in n ignore_dirs = Inr True then Dir []
                      else without_ignored ignore_dirs t) \<and> n \<in> set dirs)"
    proof (cases "is_dir t \<and> py_in n ignore_dirs = Inr True")
      case True
      with "5.prems" have "n \<notin> set dirs" by auto
      then show ?thesis by simp
    next
      case False
      with \<open>\<not> (is_dir t \<and> n \<in> set dirs)\<close> show ?thesis by auto
    qed
    with False "5.IH"(3) [OF False "5.prems"] show ?thesis
      by simp
  qed
qed

text \<open>
  Claim C8. On every tree and under every ignore configuration, the walk never enters a
  subdirectory whose name is in \<^verbatim>\<open>ignore_directories\<close>: the scan, its errors included,
  is the scan of the tree with every such subdirectory emptied, so nothing in there is
  listed or read. On a tree with real names, no record that \<^verbatim>\<open>scan_directory\<close> returns
  has a \<^verbatim>\<open>save_path\<close> with, below the root, a directory component of such a name.
\<close>

theorem scan_never_under_ignored:
  "scan_directory E root (Some (without_ignored (fst (load_ignore_list E)) t))
     = scan_directory E root (Some t)
   \<and> (scan_directory E root (Some t) = Inr recs \<and> wf_node t \<and> r \<in> set recs
        \<and> py_in d (fst (load_ignore_list E)) = Inr True
       \<longrightarrow> \<not> lies_under root d (save_path r))"
proof -
  obtain idirs ifiles where l: "load_ignore_list E = (idirs, ifiles)"
    by (cases "load_ignore_list E")
  have a: "scan_directory E root (Some (without_ignored (fst (load_ignore_list E)) t))
             = scan_directory E root (Some t)"
    using l by (simp add: scan_directory_def walk_without_ignored(1))
  have b: "\<not> lies_under root d (save_path r)"
    if "scan_directory E root (Some t) = Inr recs" "wf_node t" "r \<in> set recs"
      "py_in d (fst (load_ignore_list E)) = Inr True"
  proof -
    from that(1) l have "walk E idirs ifiles root t = Inr recs"
      by (simp add: scan_directory_def)
    from walk_reached(1) [OF this that(2,3)] have "reached idirs root (save_path r)" .
    moreover from that(4) l have "py_in d idirs = Inr True" by simp
    ultimately show ?thesis by (rule reached_not_under)
  qed
  from a b show ?thesis by blast
qed

theorem scan_never_under_ignored_witness:
  "scan_directory cache_ignore_env ''/r/cache'' (Some trap_tree)
     = Inr [foo_record, zelda_record]
   \<and> wf_node trap_tree
   \<and> zelda_record \<in> set [foo_record, zelda_record]
   \<and> py_in ''cache'' (fst (load_ignore_list cache_ignore_env)) = Inr True
   \<and> \<not> lies_under ''/r/cache'' ''cache'' (save_path zelda_record)
   \<and> lies_under ''/r/cache'' ''cache'' ''/r/cache/cache/x.sav''
   \<and> without_ignored (fst (load_ignore_list cache_ignore_env)) trap_tree
       = Dir [(''cache'', Dir []),
              (''FOO.SAV'', File (Some 0)),
              (''Cache'', Dir [(''zelda.srm'', File (Some 0))])]
   \<and> scan_directory cache_ignore_env ''/r/cache''
        (Some (Dir [(''cache'', Dir []),
              (''FOO.SAV'', File (Some 0)),
              (''Cache'', Dir [(''zelda.srm'', File (Some 0))])]))
       = scan_directory cache_ignore_env ''/r/cache'' (Some trap_tree)"
proof -
  have h1: "scan_directory cache_ignore_env ''/r/cache'' (Some trap_tree)
              = Inr [foo_record, zelda_record]"
    by code_simp
  have h2: "wf_node trap_tree"
    by code_simp
  have h3: "zelda_record \<in> set [foo_record, zelda_record]"
    by simp
  have h4: "py_in ''cache'' (fst (load_ignore_list cache_ignore_env)) = Inr True"
    by code_simp
  have h5: "lies_under ''/r/cache'' ''cache'' ''/r/cache/cache/x.sav''"
    by code_simp
  have h6: "without_ignored (fst (load_ignore_list cache_ignore_env)) trap_tree
       = Dir [(''cache'', Dir []),
              (''FOO.SAV'', File (Some 0)),
              (''Cache'', Dir [(''zelda.srm'', File (Some 0))])]"
    by code_simp
  from h1 h2 h3 h4 h5 h6
    scan_never_under_ignored [of cache_ignore_env "''/r/cache''" trap_tree
      "[foo_record, zelda_record]" zelda_record "''cache''"]
  show ?thesis by simp
qed

subsection \<open>The scanner: the root, and exact names\<close>

lemma keep_dirs_list:
  "keep_dirs (JArr ds) names = Inr (filter (\<lambda>n. JStr n \<notin> set ds) names)"
  by (induction names) simp_all

lemma dir_names_member:
  "(n, t) \<in> set es \<Longrightarrow> is_dir t \<Longrightarrow> n \<in> set (dir_names es)"
  by (induction es rule: dir_names.induct) auto

lemma scan_file_recorded:
  assumes "scan_file E ifiles root f (Some t) = Inr x"
    and "py_in f ifiles = Inr False"
    and "lower (path_suffix f) \<in> set save_extensions"
  shows "\<exists>r. x = Some r \<and> save_path r = path_join root f"
  using assms
  by (auto simp: scan_file_def Let_def split: option.splits sum.splits if_splits)

lemma scan_files_recorded:
  "scan_files E ifiles root entries = Inr recs \<Longrightarrow> (f, Some t) \<in> set entries
     \<Longrightarrow> py_in f ifiles = Inr False \<Longrightarrow> lower (path_suffix f) \<in> set save_extensions
     \<Longrightarrow> \<exists>r\<in>set recs. save_path r = path_join root f"
proof (induction entries arbitrary: recs)
  case Nil
  then show ?case by simp
next
  case (Cons a entries)
  obtain g m where a: "a = (g, m)" by (cases a)
  from Cons.prems(1) a obtain x rs where
    x: "scan_file E ifiles root g m = Inr x" and
    rs: "scan_files E ifiles root entries = Inr rs" and
    recs: "recs = (case x of None \<Rightarrow> [] | Some y \<Rightarrow> [y]) @ rs"
    by (auto split: sum.splits)
  show ?case
  proof (cases "(f, Some t) = a")
    case True
    with x a Cons.prems(3,4) obtain r where "x = Some r" "save_path r = path_join root f"
      by (auto dest: scan_file_recorded)
    with recs show ?thesis by auto
  next
    case False
    with Cons.prems(2) have "(f, Some t) \<in> set entries" by simp
    from Cons.IH [OF rs this Cons.prems(3,4)] recs show ?thesis by auto
  qed
qed

lemma walk_dirs_descends:
  "walk_dirs E idirs ifiles root dirs es = Inr recs \<Longrightarrow> (n, t) \<in> set es
     \<Longrightarrow> is_dir t \<Longrightarrow> n \<in> set dirs
     \<Longrightarrow> \<exists>rs. walk E idirs ifiles (path_join root n) t = Inr rs \<and> set rs \<subseteq> set recs"
proof (induction es arbitrary: recs)
  case Nil
  then show ?case by simp
next
  case (Cons a es)
  obtain m u where a: "a = (m, u)" by (cases a)
  show ?case
  proof (cases "is_dir u \<and> m \<in> set dirs")
    case True
    with Cons.prems(1) a obtain rs sub where
      rs: "walk E idirs ifiles (path_join root m) u = Inr rs" and
      sub: "walk_dirs E idirs ifiles root dirs es = Inr sub" and
      recs: "recs = rs @ sub"
      by (auto split: sum.splits)
    show ?thesis
    proof (cases "(n, t) = a")
      case True
      with a rs recs show ?thesis by auto
    next
      case False
      with Cons.prems(2) have "(n, t) \<in> set es" by simp
      from Cons.IH [OF sub this Cons.prems(3,4)] recs show ?thesis by auto
    qed
  next
    case False
    with Cons.prems(1) a have sub: "walk_dirs E idirs ifiles root dirs es = Inr recs"
      by auto
    from False a Cons.prems(2,3,4) have "(n, t) \<in> set es" by auto
    from Cons.IH [OF sub this Cons.prems(3,4)] show ?thesis .
  qed
qed

lemma walk_Dir_parts:
  assumes "walk E idirs ifiles root (Dir es) = Inr recs"
  obtains dirs fr sub where
    "keep_dirs idirs (dir_names es) = Inr dirs"
    "scan_files E ifiles root (file_entries es) = Inr fr"
    "walk_dirs E idirs ifiles root dirs es = Inr sub"
    "recs = fr @ sub"
  using assms by (auto split: sum.splits if_splits)

lemma walk_records_file:
  assumes "walk E idirs (JArr fs) root (Dir es) = Inr recs"
    and "(f, File (Some t)) \<in> set es"
    and "JStr f \<notin> set fs"
    and "lower (path_suffix f) \<in> set save_extensions"
  shows "\<exists>r\<in>set recs. save_path r = path_join root f"
proof -
  from assms(1) obtain dirs fr sub where
    fr: "scan_files E (JArr fs) root (file_entries es) = Inr fr" and
    recs: "recs = fr @ sub"
    by (rule walk_Dir_parts)
  from assms(2) have mem: "(f, Some t) \<in> set (file_entries es)"
    by (rule file_entries_member)
  from assms(3) have exact: "py_in f (JArr fs) = Inr False"
    by simp
  from scan_files_recorded [OF fr mem exact assms(4)] recs show ?thesis
    by auto
qed

text \<open>
  Claim C10. Whatever the root is called (its own name may be in
  \<^verbatim>\<open>ignore_directories\<close>), a file of the root whose lower-cased extension is a save
  extension and whose exact name is not in \<^verbatim>\<open>ignore_files\<close> is recorded; so is such
  a file in a subdirectory whose exact name is not in \<^verbatim>\<open>ignore_directories\<close>. The
  names are compared as they are, the extension after lower-casing.
\<close>

theorem scan_root_and_exact_names:
  assumes "load_ignore_list E = (JArr ds, JArr fs)"
    and "scan_directory E root (Some (Dir es)) = Inr recs"
    and "JStr f \<notin> set fs"
    and "lower (path_suffix f) \<in> set save_extensions"
  shows "((f, File (Some t)) \<in> set es
           \<longrightarrow> (\<exists>r\<in>set recs. save_path r = path_join root f))
       \<and> ((n, Dir sub) \<in> set es \<and> JStr n \<notin> set ds \<and> (f, File (Some t)) \<in> set sub
           \<longrightarrow> (\<exists>r\<in>set recs. save_path r = path_join (path_join root n) f))"
proof -
  from assms(1,2) have w: "walk E (JArr ds) (JArr fs) root (Dir es) = Inr recs"
    by (simp add: scan_directory_def)
  have a: "\<exists>r\<in>set recs. save_path r = path_join root f" if "(f, File (Some t)) \<in> set es"
    using w that assms(3,4) by (rule walk_records_file)
  have b: "\<exists>r\<in>set recs. save_path r = path_join (path_join root n) f"
    if sub: "(n, Dir sub) \<in> set es" and n: "JStr n \<notin> set ds"
      and f: "(f, File (Some t)) \<in> set sub"
  proof -
    from w obtain dirs fr below where
      dirs: "keep_dirs (JArr ds) (dir_names es) = Inr dirs" and
      below: "walk_dirs E (JArr ds) (JArr fs) root dirs es = Inr below" and
      recs: "recs = fr @ below"
      by (rule walk_Dir_parts)
    from sub have "n \<in> set (dir_names es)"
      by (rule dir_names_member) simp
    with dirs n have "n \<in> set dirs"
      by (auto simp: keep_dirs_list)
    with below sub obtain rs where
      rs: "walk E (JArr ds) (JArr fs) (path_join root n) (Dir sub) = Inr rs" and
      incl: "set rs \<subseteq> set below"
      by (blast dest: walk_dirs_descends [where t = "Dir sub"] intro: is_dir.simps(2) [THEN iffD2])
    from rs f assms(3,4) have "\<exists>r\<in>set rs. save_path r = path_join (path_join root n) f"
      by (rule walk_records_file)
    with incl recs show ?thesis by auto
  qed
  from a b show ?thesis by blast
qed

theorem scan_root_and_exact_names_witness:
  "load_ignore_list cache_ignore_env = (JArr [JStr ''cache''], JArr [JStr ''foo.sav''])
   \<and> scan_directory cache_ignore_env ''/r/cache'' (Some cache_tree)
       = Inr [foo_record, zelda_record]
   \<and> JStr ''FOO.SAV'' \<notin> set [JStr ''foo.sav'']
   \<and> lower (path_suffix ''FOO.SAV'') \<in> set save_extensions
   \<and> JStr ''Cache'' \<notin> set [JStr ''cache'']
   \<and> (\<exists>r\<in>set [foo_record, zelda_record]. save_path r = ''/r/cache/FOO.SAV'')
   \<and> (\<exists>r\<in>set [foo_record, zelda_record]. save_path r = ''/r/cache/Cache/zelda.srm'')"
proof -
  let ?es = "[(''cache'', Dir [(''x.sav'', File (Some 0))]),
              (''FOO.SAV'', File (Some 0)),
              (''foo.sav'', File (Some 0)),
              (''Cache'', Dir [(''zelda.srm'', File (Some 0))])]"
  have h1: "load_ignore_list cache_ignore_env
              = (JArr [JStr ''cache''], JArr [JStr ''foo.sav''])"
    by code_simp
  have h2: "scan_directory cache_ignore_env ''/r/cache'' (Some (Dir ?es))
              = Inr [foo_record, zelda_record]"
    by code_simp
  have h3: "JStr ''FOO.SAV'' \<notin> set [JStr ''foo.sav'']"
    by simp
  have h4: "lower (path_suffix ''FOO.SAV'') \<in> set save_extensions"
    by code_simp
  have h5: "(''FOO.SAV'', File (Some 0)) \<in> set ?es"
    by simp
  have j1: "path_join ''/r/cache'' ''FOO.SAV'' = ''/r/cache/FOO.SAV''"
    by code_simp
  have k3: "JStr ''zelda.srm'' \<notin> set [JStr ''foo.sav'']"
    by simp
  have k4: "lower (path_suffix ''zelda.srm'') \<in> set save_extensions"
    by code_simp
  have k5: "(''Cache'', Dir [(''zelda.srm'', File (Some 0))]) \<in> set ?es
            \<and> JStr ''Cache'' \<notin> set [JStr ''cache'']
            \<and> (''zelda.srm'', File (Some 0)) \<in> set [(''zelda.srm'', File (Some 0))]"
    by simp
  have j2: "path_join (path_join ''/r/cache'' ''Cache'') ''zelda.srm''
              = ''/r/cache/Cache/zelda.srm''"
    by code_simp
  from scan_root_and_exact_names [OF h1 h2 h3 h4, where t = 0] h5 j1
  have a: "\<exists>r\<in>set [foo_record, zelda_record]. save_path r = ''/r/cache/FOO.SAV''"
    by simp
  from scan_root_and_exact_names [OF h1 h2 k3 k4, where t = 0 and n = "''Cache''"
      and sub = "[(''zelda.srm'', File (Some 0))]"] k5 j2
  have b: "\<exists>r\<in>set [foo_record, zelda_record]. save_path r = ''/r/cache/Cache/zelda.srm''"
    by simp
  from k5 have c: "JStr ''Cache'' \<notin> set [JStr ''cache'']"
    by simp
  from h1 h2 h3 h4 c a b show ?thesis
    unfolding cache_tree_def by (intro conjI)
qed

end
